theory Spec2Isabelle
  imports Complex_Main "HOL-Library.Log_Nat"
begin

section \<open>JavaScript strings\<close>

text \<open>
  A JavaScript string is a sequence of UTF-16 code units; \<open>length\<close>, \<open>slice\<close>, \<open>repeat\<close>
  and the regular expressions without the \<open>u\<close> flag all work on code units. A string is
  modelled as the list of its code unit values. \<open>js\<close> turns an ASCII literal into
  that representation.
\<close>

type_synonym jsstring = "nat list"

definition js :: "string \<Rightarrow> jsstring" where
  "js s = map of_char s"

text \<open>
  The class \<open>\s\<close> of a regular expression, which is also the set of characters removed
  by \<open>String.prototype.trim\<close> and skipped by \<open>parseInt\<close>: WhiteSpace and LineTerminator
  of ECMAScript (TAB, LF, VT, FF, CR, SP, NBSP, U+1680, U+2000..U+200A, U+2028, U+2029,
  U+202F, U+205F, U+3000, U+FEFF).
\<close>

definition is_ws :: "nat \<Rightarrow> bool" where
  "is_ws c \<longleftrightarrow> (9 \<le> c \<and> c \<le> 13) \<or> c = 32 \<or> c = 160 \<or> c = 5760 \<or> (8192 \<le> c \<and> c \<le> 8202)
     \<or> c = 8232 \<or> c = 8233 \<or> c = 8239 \<or> c = 8287 \<or> c = 12288 \<or> c = 65279"

text \<open>The class \<open>\d\<close>: the ASCII digits only.\<close>

definition is_digit :: "nat \<Rightarrow> bool" where
  "is_digit c \<longleftrightarrow> 48 \<le> c \<and> c \<le> 57"

text \<open>\<open>String.prototype.trim\<close>.\<close>

definition trim :: "jsstring \<Rightarrow> jsstring" where
  "trim s = rev (dropWhile is_ws (rev (dropWhile is_ws s)))"

section \<open>JavaScript numbers\<close>

text \<open>
  A JavaScript number is an IEEE 754 double. The finite doubles are rational numbers, and
  every arithmetic operation returns the exact result rounded to the nearest double, ties
  to the even mantissa. \<open>fl\<close> is that rounding, for a mantissa of 53 bits; the exponent
  is not bounded, so \<open>fl\<close> is the rounding of the hardware for every result between
  \<open>2 powi (-1022)\<close> and \<open>2 powi 1024\<close> in magnitude, which covers all quantities
  computed below from string lengths, token counts, percentages and durations.
\<close>

definition round_even :: "rat \<Rightarrow> int" where
  "round_even x = (let f = \<lfloor>x\<rfloor>; d = x - of_int f in
     if d < 1/2 then f else if 1/2 < d then f + 1 else if even f then f else f + 1)"

text \<open>The binary exponent of a positive number: \<open>2 powi expo x \<le> x < 2 powi (expo x + 1)\<close>.\<close>

definition expo :: "rat \<Rightarrow> int" where
  "expo x = (if 1 \<le> x then bitlen \<lfloor>x\<rfloor> - 1 else - bitlen (\<lceil>1 / x\<rceil> - 1))"

definition fl_pos :: "rat \<Rightarrow> rat" where
  "fl_pos x = (let e = expo x - 52 in of_int (round_even (x / 2 powi e)) * 2 powi e)"

definition fl :: "rat \<Rightarrow> rat" where
  "fl x = (if x = 0 then 0 else if x < 0 then - fl_pos (- x) else fl_pos x)"

text \<open>The operators \<open>/\<close> and \<open>*\<close> on finite numbers (the divisor is not zero).\<close>

definition js_div :: "rat \<Rightarrow> rat \<Rightarrow> rat" where
  "js_div a b = fl (a / b)"

definition js_mul :: "rat \<Rightarrow> rat \<Rightarrow> rat" where
  "js_mul a b = fl (a * b)"

text \<open>
  \<open>Math.round\<close> returns the nearest integer, a tie going up; \<open>Math.floor\<close> and
  \<open>Math.ceil\<close> are exact as well.
\<close>

definition Math_round :: "rat \<Rightarrow> int" where
  "Math_round x = \<lfloor>x + 1 / 2\<rfloor>"

definition Math_floor :: "rat \<Rightarrow> int" where
  "Math_floor x = \<lfloor>x\<rfloor>"

definition Math_ceil :: "rat \<Rightarrow> int" where
  "Math_ceil x = \<lceil>x\<rceil>"

text \<open>The operator \<open>%\<close> on integers: the result has the sign of the dividend.\<close>

definition js_rem :: "int \<Rightarrow> int \<Rightarrow> int" where
  "js_rem a b = sgn a * (\<bar>a\<bar> mod \<bar>b\<bar>)"

text \<open>
  The string of an integer, as a template literal or \<open>toString\<close> gives it (decimal digits,
  for an integer below \<open>10 ^ 21\<close> in magnitude).
\<close>

fun nat_str :: "nat \<Rightarrow> jsstring" where
  "nat_str n = (if n < 10 then [48 + n] else nat_str (n div 10) @ [48 + n mod 10])"

declare nat_str.simps [simp del]

definition num_str :: "int \<Rightarrow> jsstring" where
  "num_str i = (if i < 0 then 45 # nat_str (nat (- i)) else nat_str (nat i))"

section \<open>Regular expressions\<close>

text \<open>
  The regular expressions of the sources, with the backtracking semantics of ECMAScript.
  \<open>Atom p\<close> is a character class or a literal, \<open>Star\<close> and \<open>Opt\<close> are the greedy
  quantifiers \<open>*\<close> and \<open>?\<close>, and \<open>Plus\<close> is \<open>+\<close>. \<open>rests r s\<close> lists the remainders of
  \<open>s\<close> after each way of matching \<open>r\<close> at its start, in the order in which backtracking
  tries them; as in ECMAScript, an iteration of \<open>*\<close> that consumes nothing is rejected.
\<close>

datatype rx = Atom "nat \<Rightarrow> bool" | Seq rx rx | Star rx | Opt rx

fun rests :: "rx \<Rightarrow> jsstring \<Rightarrow> jsstring list" where
  "rests (Atom p) s = (case s of [] \<Rightarrow> [] | c # t \<Rightarrow> if p c then [t] else [])"
| "rests (Seq a b) s = concat (map (rests b) (rests a s))"
| "rests (Opt a) s = rests a s @ [s]"
| "rests (Star a) s =
     concat (map (\<lambda>t. if length t < length s then rests (Star a) t else []) (rests a s)) @ [s]"

declare rests.simps(4) [simp del]

text \<open>
  The iterations of \<open>Star a\<close> in \<open>s\<close>, by the remainders \<open>ts\<close> of one match of \<open>a\<close>:
  a name for the first half of the last equation, which unfolds one remainder at a time.
\<close>

definition star_step :: "rx \<Rightarrow> jsstring \<Rightarrow> jsstring list \<Rightarrow> jsstring list" where
  "star_step a s ts =
     concat (map (\<lambda>t. if length t < length s then rests (Star a) t else []) ts)"

definition Plus :: "rx \<Rightarrow> rx" where
  "Plus a = Seq a (Star a)"

text \<open>A literal character, and a letter under the flag \<open>i\<close> (given in lower case).\<close>

definition Chr :: "nat \<Rightarrow> rx" where
  "Chr c = Atom (\<lambda>x. x = c)"

definition Chr_i :: "char \<Rightarrow> rx" where
  "Chr_i c = Atom (\<lambda>x. x = of_char c \<or> x + 32 = of_char c)"

text \<open>
  \<open>str.replace(r, rep)\<close> for a regular expression with the flag \<open>g\<close> and a replacement
  without \<open>$\<close>: the first way of matching at the leftmost position is replaced, and the
  scan goes on behind the match (one character further after an empty match).
\<close>

function replace_all :: "rx \<Rightarrow> jsstring \<Rightarrow> jsstring \<Rightarrow> jsstring" where
  "replace_all r rep s =
     (case rests r s of
        [] \<Rightarrow> (case s of [] \<Rightarrow> [] | c # cs \<Rightarrow> c # replace_all r rep cs)
      | t # _ \<Rightarrow>
          if length t < length s then rep @ replace_all r rep t
          else (case s of [] \<Rightarrow> rep | c # cs \<Rightarrow> rep @ c # replace_all r rep cs))"
  by pat_completeness auto
termination
  by (relation "measure (\<lambda>(r, rep, s). length s)") auto

declare replace_all.simps [simp del]

text \<open>
  \<open>str.match(/(g)r/)\<close>, for a regular expression made of a capture group followed by
  \<open>r\<close>, without the flag \<open>g\<close>: the text of the group in the first way of matching at the
  leftmost position where the expression matches, or \<open>None\<close> for \<open>null\<close>.
\<close>

definition exec_group :: "rx \<Rightarrow> rx \<Rightarrow> jsstring \<Rightarrow> jsstring option" where
  "exec_group g r s =
     (case filter (\<lambda>t. rests r t \<noteq> []) (rests g s) of
        [] \<Rightarrow> None
      | t # _ \<Rightarrow> Some (take (length s - length t) s))"

fun match_group :: "rx \<Rightarrow> rx \<Rightarrow> jsstring \<Rightarrow> jsstring option" where
  "match_group g r [] = exec_group g r []"
| "match_group g r (c # cs) =
     (case exec_group g r (c # cs) of Some m \<Rightarrow> Some m | None \<Rightarrow> match_group g r cs)"

text \<open>
  The number for an integer: the double nearest to it, which is again an integer (it is
  its floor), and is the integer itself up to \<open>2 ^ 53\<close> in magnitude.
\<close>

definition double_of_int :: "int \<Rightarrow> int" where
  "double_of_int n = \<lfloor>fl (of_int n)\<rfloor>"

text \<open>
  \<open>parseInt(str, 10)\<close>: leading white space is skipped, a sign is read, and the digits up
  to the first other character give the value; \<open>None\<close> is \<open>NaN\<close>. The value is the
  number for the integer the digits denote: that integer rounded to a double. (As the
  exponent of \<open>fl\<close> is not bounded, this is \<open>parseInt\<close> for fewer than 309 digits; from
  \<open>2 ^ 1024\<close> on JavaScript has \<open>Infinity\<close>.)
\<close>

definition digits_value :: "jsstring \<Rightarrow> nat" where
  "digits_value ds = foldl (\<lambda>a c. 10 * a + (c - 48)) 0 ds"

definition parseInt :: "jsstring \<Rightarrow> int option" where
  "parseInt str =
     (let s = dropWhile is_ws str;
          sign = (case s of [] \<Rightarrow> 1 | c # _ \<Rightarrow> if c = 45 then - 1 else 1);
          body = (case s of [] \<Rightarrow> [] | c # r \<Rightarrow> if c = 45 \<or> c = 43 then r else s);
          ds = takeWhile is_digit body
      in if ds = [] then None else Some (double_of_int (sign * int (digits_value ds))))"

section \<open>hooks/utils/token.ts\<close>

text \<open>The expression \<open>/\s+/g\<close>.\<close>

definition rx_spaces :: rx where
  "rx_spaces = Plus (Atom is_ws)"

definition estimateTokens :: "jsstring \<Rightarrow> int" where
  "estimateTokens text =
     (if text = [] then 0
      else let trimmed = trim (replace_all rx_spaces [32] text)
           in Math_ceil (js_div (of_nat (length trimmed)) 4))"

text \<open>
  The expression \<open>/(\d+(?:,\d+)*)\s*tokens?/i\<close>: the capture group, and what follows it.
\<close>

definition rx_count :: rx where
  "rx_count = Seq (Plus (Atom is_digit)) (Star (Seq (Chr 44) (Plus (Atom is_digit))))"

definition rx_tokens :: rx where
  "rx_tokens =
     Seq (Star (Atom is_ws))
       (Seq (Chr_i CHR ''t'') (Seq (Chr_i CHR ''o'') (Seq (Chr_i CHR ''k'')
         (Seq (Chr_i CHR ''e'') (Seq (Chr_i CHR ''n'') (Opt (Chr_i CHR ''s'')))))))"

definition parseConversationTokens :: "jsstring \<Rightarrow> int option" where
  "parseConversationTokens summary =
     (if summary = [] then Some 0
      else case match_group rx_count rx_tokens summary of
             Some m \<Rightarrow> parseInt (filter (\<lambda>c. c \<noteq> 44) m)
           | None \<Rightarrow> Some (estimateTokens summary))"

text \<open>
  \<open>TokenUsage\<close> of \<open>src/types.ts\<close>. The fields are JavaScript numbers; the values this
  program stores there are integers, or not finite: \<open>None\<close> stands for \<open>NaN\<close>, which a
  percentage against a maximum of zero is (\<open>0 / 0\<close>).
\<close>

record TokenUsage =
  current :: "int option"
  max' :: int
  percentage :: "int option"

text \<open>\<open>Math.min\<close>, where the first argument may be \<open>NaN\<close>.\<close>

definition Math_min :: "int option \<Rightarrow> int \<Rightarrow> int option" where
  "Math_min a b = (case a of None \<Rightarrow> None | Some x \<Rightarrow> Some (min x b))"

definition calculateTokenUsage :: "jsstring option \<Rightarrow> int \<Rightarrow> TokenUsage" where
  "calculateTokenUsage summary maxTokens =
     (let current = parseConversationTokens (case summary of None \<Rightarrow> [] | Some s \<Rightarrow> s);
          safeCurrent = Math_min current maxTokens;
          percentage =
            (case safeCurrent of
               None \<Rightarrow> None
             | Some c \<Rightarrow>
                 if maxTokens = 0 then None
                 else Some (Math_round (js_mul (js_div (of_int c) (of_int maxTokens)) 100)))
      in \<lparr>current = safeCurrent, max' = maxTokens, percentage = percentage\<rparr>)"

text \<open>\<open>x >= t\<close> on numbers: every comparison with \<open>NaN\<close> is false.\<close>

definition num_ge :: "int option \<Rightarrow> int \<Rightarrow> bool" where
  "num_ge x t = (case x of None \<Rightarrow> False | Some v \<Rightarrow> t \<le> v)"

definition isContextCritical :: "TokenUsage \<Rightarrow> bool" where
  "isContextCritical usage = num_ge (percentage usage) 90"

definition isContextLow :: "TokenUsage \<Rightarrow> bool" where
  "isContextLow usage = num_ge (percentage usage) 75"

text \<open>The two warning texts; each starts with a symbol followed by U+FE0F.\<close>

definition critical_warning :: jsstring where
  "critical_warning =
     [9888, 65039] @ js '' Context window nearly full! Consider starting a new session.''"

definition low_warning :: jsstring where
  "low_warning =
     [8505, 65039] @ js '' Context usage is above 75%. Some history may be summarized.''"

definition getContextWarning :: "TokenUsage \<Rightarrow> jsstring option" where
  "getContextWarning usage =
     (if isContextCritical usage then Some critical_warning
      else if isContextLow usage then Some low_warning
      else None)"

section \<open>src/config.ts\<close>

record ColorConfig =
  low :: jsstring
  medium :: jsstring
  high :: jsstring

record StatuslineConfig =
  maxTokens :: int
  progressBarWidth :: int
  showIcons :: bool
  colors :: ColorConfig

definition DEFAULT_CONFIG :: StatuslineConfig where
  "DEFAULT_CONFIG =
     \<lparr>maxTokens = 200000, progressBarWidth = 20, showIcons = True,
      colors = \<lparr>low = js ''red'', medium = js ''yellow'', high = js ''green''\<rparr>\<rparr>"

text \<open>
  The environment maps a variable's name to its value, \<open>None\<close> when it is not set
  (\<open>getEnv\<close> returns \<open>undefined\<close>). \<open>if (value)\<close> holds for a string that is set and
  not empty.
\<close>

type_synonym env = "string \<Rightarrow> jsstring option"

definition truthy :: "jsstring option \<Rightarrow> bool" where
  "truthy v = (case v of None \<Rightarrow> False | Some s \<Rightarrow> s \<noteq> [])"

text \<open>\<open>String.prototype.includes\<close>.\<close>

fun str_includes :: "jsstring \<Rightarrow> jsstring \<Rightarrow> bool" where
  "str_includes [] sub = (sub = [])"
| "str_includes (c # cs) sub = (take (length sub) (c # cs) = sub \<or> str_includes cs sub)"

text \<open>
  \<open>loadConfig\<close>, from the environment and the platform (\<open>getPlatform()\<close>). The four
  steps are the four blocks of the function, in its order.
\<close>

definition load_maxTokens :: "env \<Rightarrow> StatuslineConfig \<Rightarrow> StatuslineConfig" where
  "load_maxTokens e config =
     (case e ''STATUSLINE_MAX_TOKENS'' of
        None \<Rightarrow> config
      | Some maxTokensEnv \<Rightarrow>
          if maxTokensEnv = [] then config
          else (case parseInt maxTokensEnv of
                  None \<Rightarrow> config
                | Some parsed \<Rightarrow> config\<lparr>maxTokens := parsed\<rparr>))"

definition load_progressBarWidth :: "env \<Rightarrow> StatuslineConfig \<Rightarrow> StatuslineConfig" where
  "load_progressBarWidth e config =
     (case e ''STATUSLINE_PROGRESS_WIDTH'' of
        None \<Rightarrow> config
      | Some progressBarWidthEnv \<Rightarrow>
          if progressBarWidthEnv = [] then config
          else (case parseInt progressBarWidthEnv of
                  None \<Rightarrow> config
                | Some parsed \<Rightarrow>
                    if 0 < parsed then config\<lparr>progressBarWidth := parsed\<rparr> else config))"

definition load_showIcons :: "env \<Rightarrow> StatuslineConfig \<Rightarrow> StatuslineConfig" where
  "load_showIcons e config =
     (case e ''STATUSLINE_ICONS'' of
        None \<Rightarrow> config
      | Some showIconsEnv \<Rightarrow>
          if showIconsEnv = [] then config
          else config\<lparr>showIcons := (showIconsEnv = js ''true'' \<or> showIconsEnv = js ''1'')\<rparr>)"

definition load_windows :: "env \<Rightarrow> string \<Rightarrow> StatuslineConfig \<Rightarrow> StatuslineConfig" where
  "load_windows e platform config =
     (if platform = ''windows''
      then (let term = (case e ''TERM'' of None \<Rightarrow> [] | Some t \<Rightarrow> t);
                wtSession = e ''WT_SESSION''
            in if \<not> str_includes term (js ''xterm'') \<and> \<not> truthy wtSession
               then config\<lparr>showIcons := False\<rparr> else config)
      else config)"

definition loadConfig :: "env \<Rightarrow> string \<Rightarrow> StatuslineConfig" where
  "loadConfig e platform =
     load_windows e platform
       (load_showIcons e (load_progressBarWidth e (load_maxTokens e DEFAULT_CONFIG)))"

text \<open>\<open>MODEL_TOKEN_LIMITS\<close>, in the order of its keys.\<close>

definition MODEL_TOKEN_LIMITS :: "(jsstring \<times> int) list" where
  "MODEL_TOKEN_LIMITS =
     [(js ''claude-3-5-haiku'', 200000), (js ''claude-3-5-sonnet'', 200000),
      (js ''claude-3-opus'', 200000), (js ''claude-opus-4-5'', 1000000),
      (js ''claude-sonnet-4-5'', 200000), (js ''claude-opus-4-6'', 1000000),
      (js ''claude-sonnet-4-6'', 200000)]"

definition getMaxTokensForModel :: "jsstring \<Rightarrow> int" where
  "getMaxTokensForModel model =
     (case filter (\<lambda>(key, value). str_includes model key) MODEL_TOKEN_LIMITS of
        [] \<Rightarrow> maxTokens DEFAULT_CONFIG
      | (key, value) # _ \<Rightarrow> value)"

definition updateConfigForModel :: "StatuslineConfig \<Rightarrow> jsstring \<Rightarrow> StatuslineConfig" where
  "updateConfigForModel config model = config\<lparr>maxTokens := getMaxTokensForModel model\<rparr>"

section \<open>Paths\<close>

text \<open>
  \<open>str.split(sep)\<close> for a separator that is one character or a class of one character:
  the pieces between the separators, empty pieces included.
\<close>

fun split_where :: "(nat \<Rightarrow> bool) \<Rightarrow> jsstring \<Rightarrow> jsstring list" where
  "split_where p [] = [[]]"
| "split_where p (c # cs) =
     (if p c then [] # split_where p cs
      else (case split_where p cs of [] \<Rightarrow> [[c]] | h # t \<Rightarrow> (c # h) # t))"


text \<open>
  \<open>formatPath\<close> of \<open>hooks/utils/git.ts\<close>, the formatter of the hooks, on a path relative
  to the root of the repository. Its second parameter \<open>maxLength\<close> is never read.
\<close>

definition git_formatPath :: "jsstring \<Rightarrow> jsstring" where
  "git_formatPath relativePath =
     (if relativePath = js ''.'' then js ''~''
      else let segments = split_where (\<lambda>c. c = 47) relativePath
           in if length segments \<le> 2 then js ''~/'' @ relativePath
              else let first = segments ! 0; last = segments ! (length segments - 1)
                   in js ''~/'' @ first @ js ''/.../'' @ last)"






section \<open>src/lib/colors.ts and src/lib/formatters.ts: progress bars\<close>

text \<open>A colour function wraps a text in its escape sequence and the reset sequence.\<close>

definition ANSI_reset :: jsstring where
  "ANSI_reset = 27 # js ''[0m''"

definition color :: "string \<Rightarrow> jsstring \<Rightarrow> jsstring" where
  "color code text = 27 # js code @ text @ ANSI_reset"

text \<open>
  \<open>getProgressBarColor\<close>: the colour function for a percentage and a colour mode
  (\<open>gray\<close>, \<open>yellow\<close>, \<open>orange\<close>, \<open>red\<close>, \<open>green\<close>, \<open>peach\<close>, \<open>black\<close> and \<open>white\<close> of
  \<open>colors\<close>).
\<close>

definition getProgressBarColor :: "rat \<Rightarrow> jsstring \<Rightarrow> jsstring \<Rightarrow> jsstring" where
  "getProgressBarColor pct colorMode =
     (if colorMode = js ''progressive''
      then (if pct < 50 then color ''[90m''
            else if pct < 70 then color ''[93m''
            else if pct < 90 then color ''[38;5;208m''
            else color ''[91m'')
      else if colorMode = js ''green'' then color ''[92m''
      else if colorMode = js ''yellow'' then color ''[93m''
      else if colorMode = js ''peach'' then color ''[38;2;222;115;86m''
      else if colorMode = js ''black'' then color ''[30m''
      else if colorMode = js ''white'' then color ''[37m''
      else color ''[91m'')"

text \<open>\<open>getProgressBarBackground\<close>; \<open>None\<close> is \<open>null\<close>.\<close>

definition getProgressBarBackground :: "jsstring \<Rightarrow> (jsstring \<Rightarrow> jsstring) option" where
  "getProgressBarBackground background =
     (if background = js ''none'' then None
      else if background = js ''dark'' then Some (color ''[40m'')
      else if background = js ''gray'' then Some (color ''[100m'')
      else if background = js ''light'' then Some (color ''[47m'')
      else if background = js ''blue'' then Some (color ''[44m'')
      else if background = js ''purple'' then Some (color ''[45m'')
      else if background = js ''cyan'' then Some (color ''[46m'')
      else if background = js ''peach'' then Some (color ''[48;2;222;115;86m'')
      else None)"

text \<open>\<open>bgFn ? bgFn(colorFn(text)) : colorFn(text)\<close>.\<close>

definition paint :: "(jsstring \<Rightarrow> jsstring) \<Rightarrow> (jsstring \<Rightarrow> jsstring) option \<Rightarrow> jsstring \<Rightarrow> jsstring"
  where
  "paint colorFn bgFn text = (case bgFn of Some bg \<Rightarrow> bg (colorFn text) | None \<Rightarrow> colorFn text)"

text \<open>\<open>String.prototype.repeat\<close> throws a \<open>RangeError\<close> for a negative count.\<close>

datatype js_error = RangeError

definition repeat :: "jsstring \<Rightarrow> int \<Rightarrow> js_error + jsstring" where
  "repeat s n = (if n < 0 then Inl RangeError else Inr (concat (replicate (nat n) s)))"

text \<open>
  The three bar styles. \<open>pct\<close> is the percentage, a number; \<open>len\<close> is the length of
  the bar, a natural number. Differences of integers are exact below \<open>2 ^ 53\<close>. The
  glyphs are U+2588 and U+2591 (filled), U+25B0 and U+25B1 (rectangle), and the seven
  braille patterns of \<open>brailleChars\<close>.
\<close>

definition bar_filled :: "rat \<Rightarrow> nat \<Rightarrow> int" where
  "bar_filled pct len = Math_round (js_mul (js_div pct 100) (of_nat len))"

definition two_glyph_bar ::
  "nat \<Rightarrow> nat \<Rightarrow> rat \<Rightarrow> nat \<Rightarrow> jsstring \<Rightarrow> jsstring \<Rightarrow> js_error + jsstring" where
  "two_glyph_bar full_glyph empty_glyph pct len colorMode background =
     (let filled = bar_filled pct len;
          empty = int len - filled
      in case repeat [full_glyph] filled of
           Inl err \<Rightarrow> Inl err
         | Inr filledBar \<Rightarrow>
             (case repeat [empty_glyph] empty of
                Inl err \<Rightarrow> Inl err
              | Inr emptyBar \<Rightarrow>
                  let colorFn = getProgressBarColor pct colorMode;
                      bgFn = getProgressBarBackground background;
                      coloredFilled = paint colorFn bgFn filledBar;
                      coloredEmpty = paint colorFn bgFn emptyBar
                  in Inr (coloredFilled @ coloredEmpty)))"

definition formatProgressBarFilled ::
  "rat \<Rightarrow> nat \<Rightarrow> jsstring \<Rightarrow> jsstring \<Rightarrow> js_error + jsstring" where
  "formatProgressBarFilled = two_glyph_bar 9608 9617"

definition formatProgressBarRectangle ::
  "rat \<Rightarrow> nat \<Rightarrow> jsstring \<Rightarrow> jsstring \<Rightarrow> js_error + jsstring" where
  "formatProgressBarRectangle = two_glyph_bar 9648 9649"

definition brailleChars :: "nat list" where
  "brailleChars = [10432, 10436, 10468, 10470, 10486, 10487, 10495]"

definition braille_totalSteps :: "nat \<Rightarrow> rat" where
  "braille_totalSteps len = js_mul (of_nat len) (of_nat (length brailleChars - 1))"

definition braille_currentStep :: "rat \<Rightarrow> nat \<Rightarrow> int" where
  "braille_currentStep pct len = Math_round (js_mul (js_div pct 100) (braille_totalSteps len))"

definition braille_fullBlocks :: "rat \<Rightarrow> nat \<Rightarrow> int" where
  "braille_fullBlocks pct len =
     Math_floor (js_div (of_int (braille_currentStep pct len)) (of_nat (length brailleChars - 1)))"

definition braille_partialIndex :: "rat \<Rightarrow> nat \<Rightarrow> int" where
  "braille_partialIndex pct len =
     js_rem (braille_currentStep pct len) (int (length brailleChars - 1))"

definition braille_emptyBlocks :: "rat \<Rightarrow> nat \<Rightarrow> int" where
  "braille_emptyBlocks pct len =
     int len - braille_fullBlocks pct len - (if 0 < braille_partialIndex pct len then 1 else 0)"

definition formatProgressBarBraille ::
  "rat \<Rightarrow> nat \<Rightarrow> jsstring \<Rightarrow> jsstring \<Rightarrow> js_error + jsstring" where
  "formatProgressBarBraille pct len colorMode background =
     (let fullBlocks = braille_fullBlocks pct len;
          partialIndex = braille_partialIndex pct len;
          emptyBlocks = braille_emptyBlocks pct len;
          colorFn = getProgressBarColor pct colorMode;
          bgFn = getProgressBarBackground background
      in case repeat [10495] fullBlocks of
           Inl err \<Rightarrow> Inl err
         | Inr fullBar \<Rightarrow>
             let fullPart = paint colorFn bgFn fullBar;
                 partialPart =
                   (if 0 < partialIndex then paint colorFn bgFn [brailleChars ! nat partialIndex]
                    else [])
             in if 0 < emptyBlocks
                then (case repeat [10432] emptyBlocks of
                        Inl err \<Rightarrow> Inl err
                      | Inr emptyBar \<Rightarrow>
                          Inr (fullPart @ partialPart @ paint colorFn bgFn emptyBar))
                else Inr (fullPart @ partialPart @ []))"

definition formatProgressBar ::
  "rat \<Rightarrow> nat \<Rightarrow> jsstring \<Rightarrow> jsstring \<Rightarrow> jsstring \<Rightarrow> js_error + jsstring" where
  "formatProgressBar pct len style colorMode background =
     (if style = js ''rectangle'' then formatProgressBarRectangle pct len colorMode background
      else if style = js ''braille'' then formatProgressBarBraille pct len colorMode background
      else formatProgressBarFilled pct len colorMode background)"

text \<open>
  \<open>stripAnsiCodes\<close> of \<open>hooks/utils/display.ts\<close> removes the colour sequences,
  \<open>/\x1b\[[0-9;]*m/g\<close>: what it leaves of a bar is the glyphs.
\<close>

definition rx_ansi :: rx where
  "rx_ansi = Seq (Chr 27) (Seq (Chr 91) (Seq (Star (Atom (\<lambda>c. is_digit c \<or> c = 59))) (Chr 109)))"

definition stripAnsiCodes :: "jsstring \<Rightarrow> jsstring" where
  "stripAnsiCodes text = replace_all rx_ansi [] text"

text \<open>
  The colour sequences of \<open>colors\<close>: \<open>[\<close>, then digits and semicolons, then \<open>m\<close>
  (after the escape character).
\<close>

definition is_sgr :: "string \<Rightarrow> bool" where
  "is_sgr code \<longleftrightarrow>
     (case js code of
        [] \<Rightarrow> False
      | c # r \<Rightarrow> c = 91 \<and> r \<noteq> [] \<and> last r = 109
                 \<and> list_all (\<lambda>c. is_digit c \<or> c = 59) (butlast r))"

section \<open>Entry points\<close>

text \<open>
  A step of a program either returns a value or throws. What is thrown has the text that
  a template literal gives it (\<open>`${error}`\<close>) and the text of its property \<open>message\<close>.
\<close>

datatype thrown = Thrown (text_of: jsstring) (message_of: jsstring)

datatype 'a outcome = Returns 'a | Throws thrown

text \<open>
  A process: what it has written to standard output (documents or lines, of type \<open>'o\<close>)
  and to standard error, and the code \<open>process.exit\<close> was called with, if it was. A
  computation runs in a process, which it changes, and returns or throws; what was
  written before a throw stays written.
\<close>

record 'o process =
  stdout :: "'o list"
  stderr :: "jsstring list"
  exited :: "int option"

type_synonym ('o, 'a) io = "'o process \<Rightarrow> 'a outcome \<times> 'o process"

text \<open>
  A step whose outcome the environment decides (reading the input, probing git, reading
  files, rendering); one statement after another; and \<open>try { body } catch (e) { handler }\<close>.
\<close>

definition step :: "'a outcome \<Rightarrow> ('o, 'a) io" where
  "step r p = (r, p)"

definition io_bind :: "('o, 'a) io \<Rightarrow> ('a \<Rightarrow> ('o, 'b) io) \<Rightarrow> ('o, 'b) io" where
  "io_bind m f p = (case m p of (Returns x, p') \<Rightarrow> f x p' | (Throws e, p') \<Rightarrow> (Throws e, p'))"

definition try_catch :: "('o, 'a) io \<Rightarrow> (thrown \<Rightarrow> ('o, 'a) io) \<Rightarrow> ('o, 'a) io" where
  "try_catch body handler p =
     (case body p of (Returns x, p') \<Rightarrow> (Returns x, p') | (Throws e, p') \<Rightarrow> handler e p')"

text \<open>
  Writing to standard output and to standard error. Whether a write succeeds is for the
  environment to decide; a write that throws has written nothing.
\<close>

definition write_stdout :: "unit outcome \<Rightarrow> 'o \<Rightarrow> ('o, unit) io" where
  "write_stdout written doc p =
     (case written of
        Returns u \<Rightarrow> (Returns (), p\<lparr>stdout := stdout p @ [doc]\<rparr>)
      | Throws e \<Rightarrow> (Throws e, p))"

definition write_stderr :: "unit outcome \<Rightarrow> jsstring \<Rightarrow> ('o, unit) io" where
  "write_stderr written line p =
     (case written of
        Returns u \<Rightarrow> (Returns (), p\<lparr>stderr := stderr p @ [line]\<rparr>)
      | Throws e \<Rightarrow> (Throws e, p))"

text \<open>\<open>process.exit(code)\<close>; in these sources it is the last statement wherever it stands.\<close>

definition process_exit :: "int \<Rightarrow> ('o, unit) io" where
  "process_exit code p = (Returns (), p\<lparr>exited := Some code\<rparr>)"

text \<open>
  Running a program from an empty process. A program that returns without a call of
  \<open>process.exit\<close> ends with code 0. A program that throws (an uncaught exception, or a
  rejected promise that nothing handles) is ended by the runtime with code 1; the report
  that the runtime prints on standard error is left out.
\<close>

definition run :: "('o, unit) io \<Rightarrow> 'o process" where
  "run main =
     (case main \<lparr>stdout = [], stderr = [], exited = None\<rparr> of
        (Returns u, p) \<Rightarrow> (case exited p of None \<Rightarrow> p\<lparr>exited := Some 0\<rparr> | Some code \<Rightarrow> p)
      | (Throws e, p) \<Rightarrow> p\<lparr>exited := Some 1\<rparr>)"

text \<open>
  The hooks \<open>hooks/session-start.ts\<close> and \<open>hooks/user-prompt-submit.ts\<close>, which differ in
  the event name only. The \<open>try\<close> block of \<open>main\<close> composes the hook output (from
  \<open>readInput\<close> to \<open>createHookOutput\<close>), writes it to standard output as one JSON
  document, formats the compact line and logs it to standard error. The \<open>catch\<close> block
  logs the error and writes the envelope that has the hook's own event name only.
  \<open>main\<close> is awaited at the top level and nothing calls \<open>process.exit\<close>.
\<close>

record HookOutput =
  hookEventName :: jsstring
  additionalContext :: "jsstring option"
  systemMessage :: "jsstring option"

definition envelope :: "jsstring \<Rightarrow> HookOutput" where
  "envelope name = \<lparr>hookEventName = name, additionalContext = None, systemMessage = None\<rparr>"

record hook_env =
  composition :: "HookOutput outcome"
  output_write :: "unit outcome"
  compact_line :: "jsstring outcome"
  line_log :: "unit outcome"
  error_log :: "unit outcome"
  envelope_write :: "unit outcome"

definition hook_main :: "jsstring \<Rightarrow> hook_env \<Rightarrow> (HookOutput, unit) io" where
  "hook_main ownEvent env =
     try_catch
       (io_bind (step (composition env)) (\<lambda>output.
        io_bind (write_stdout (output_write env) output) (\<lambda>u.
        io_bind (step (compact_line env)) (\<lambda>line.
        write_stderr (line_log env) (js ''[Statusline] '' @ line)))))
       (\<lambda>error.
        io_bind (write_stderr (error_log env) (js ''[Statusline] Error: '' @ text_of error)) (\<lambda>u.
        write_stdout (envelope_write env) (envelope ownEvent)))"

definition session_start_main :: "hook_env \<Rightarrow> (HookOutput, unit) io" where
  "session_start_main = hook_main (js ''SessionStart'')"

definition user_prompt_submit_main :: "hook_env \<Rightarrow> (HookOutput, unit) io" where
  "user_prompt_submit_main = hook_main (js ''UserPromptSubmit'')"

text \<open>
  The hooks \<open>hooks/session-start.mjs\<close> and \<open>hooks/user-prompt-submit.mjs\<close>. The \<open>try\<close>
  block composes the output and the statusline and writes the output with
  \<open>writeFileSync(1, ...)\<close>; \<open>session-start.mjs\<close> then writes the statusline to standard
  error. The \<open>catch\<close> block writes the envelope, without a log; \<open>process.exit(0)\<close>
  follows the \<open>try\<close> statement.
\<close>

record script_env =
  script_composition :: "(HookOutput \<times> jsstring) outcome"
  script_output_write :: "unit outcome"
  script_line_log :: "unit outcome"
  script_envelope_write :: "unit outcome"

definition session_start_mjs_main :: "script_env \<Rightarrow> (HookOutput, unit) io" where
  "session_start_mjs_main env =
     io_bind
       (try_catch
          (io_bind (step (script_composition env)) (\<lambda>(output, statusline).
           io_bind (write_stdout (script_output_write env) output) (\<lambda>u.
           write_stderr (script_line_log env) (js ''[Statusline] '' @ statusline))))
          (\<lambda>error. write_stdout (script_envelope_write env) (envelope (js ''SessionStart''))))
       (\<lambda>u. process_exit 0)"

definition user_prompt_submit_mjs_main :: "script_env \<Rightarrow> (HookOutput, unit) io" where
  "user_prompt_submit_mjs_main env =
     io_bind
       (try_catch
          (io_bind (step (script_composition env)) (\<lambda>(output, statusline).
           write_stdout (script_output_write env) output))
          (\<lambda>error. write_stdout (script_envelope_write env) (envelope (js ''UserPromptSubmit''))))
       (\<lambda>u. process_exit 0)"

text \<open>
  The native statusline \<open>src/index.ts\<close>. \<open>main\<close> renders the statusline (the text and
  the setting \<open>oneLine\<close>), prints it, and prints an empty line after it unless \<open>oneLine\<close>
  is set. The handler of \<open>main().catch\<close> prints the message to standard error and calls
  \<open>process.exit(1)\<close>.
\<close>

record native_env =
  rendering :: "(jsstring \<times> bool) outcome"
  output_print :: "unit outcome"
  newline_print :: "unit outcome"
  error_print :: "unit outcome"

definition index_main :: "native_env \<Rightarrow> (jsstring, unit) io" where
  "index_main env =
     try_catch
       (io_bind (step (rendering env)) (\<lambda>(output, oneLine).
        io_bind (write_stdout (output_print env) output) (\<lambda>u.
        if \<not> oneLine then write_stdout (newline_print env) [] else step (Returns ()))))
       (\<lambda>error.
        io_bind (write_stderr (error_print env) (js ''Error: '' @ message_of error)) (\<lambda>u.
        process_exit 1))"

text \<open>
  The script \<open>scripts/statusline.mjs\<close>: \<open>main\<close> builds the statusline and prints it, and
  is called at the top level without a handler.
\<close>

definition statusline_mjs_main :: "jsstring outcome \<Rightarrow> unit outcome \<Rightarrow> (jsstring, unit) io" where
  "statusline_mjs_main built printed =
     io_bind (step built) (\<lambda>statusline. write_stdout printed statusline)"

section \<open>src/lib/formatters.ts: durations\<close>

definition formatDuration :: "nat \<Rightarrow> jsstring" where
  "formatDuration ms =
     (let minutes = Math_floor (js_div (of_nat ms) 60000);
          hours = Math_floor (js_div (of_int minutes) 60);
          mins = js_rem minutes 60
      in if 0 < hours
         then (if 0 < mins then num_str hours @ js ''h'' @ num_str mins @ js ''m''
               else num_str hours @ js ''h'')
         else num_str mins @ js ''m'')"

section \<open>Regular languages, and the notions of the specification\<close>

text \<open>
  The language of a regular expression: the set of the strings it matches, whatever the
  order in which the matcher tries them.
\<close>

inductive_set star :: "'a list set \<Rightarrow> 'a list set" for A :: "'a list set" where
  Nil: "[] \<in> star A"
| step: "u \<in> A \<Longrightarrow> v \<in> star A \<Longrightarrow> u @ v \<in> star A"

fun lang :: "rx \<Rightarrow> jsstring set" where
  "lang (Atom p) = {[c] | c. p c}"
| "lang (Seq a b) = {u @ v | u v. u \<in> lang a \<and> v \<in> lang b}"
| "lang (Opt a) = insert [] (lang a)"
| "lang (Star a) = star (lang a)"

text \<open>
  The words of the claims on token counts. A decimal number with optional comma grouping
  is a run of digits followed by any number of groups \<open>,digits\<close>; the word \<open>token\<close> or
  \<open>tokens\<close> is compared without regard to case; and a count occurs at the start of a
  string when the string is such a number, then any white space, then the word, then
  anything.
\<close>

definition ascii_lower :: "nat \<Rightarrow> nat" where
  "ascii_lower c = (if 65 \<le> c \<and> c \<le> 90 then c + 32 else c)"

definition is_token_word :: "jsstring \<Rightarrow> bool" where
  "is_token_word w \<longleftrightarrow> map ascii_lower w = js ''token'' \<or> map ascii_lower w = js ''tokens''"

inductive grouped_digits :: "jsstring \<Rightarrow> bool" where
  digits: "d \<noteq> [] \<Longrightarrow> list_all is_digit d \<Longrightarrow> grouped_digits d"
| group: "grouped_digits n \<Longrightarrow> g \<noteq> [] \<Longrightarrow> list_all is_digit g \<Longrightarrow> grouped_digits (n @ 44 # g)"

definition token_count_at :: "jsstring \<Rightarrow> bool" where
  "token_count_at s \<longleftrightarrow>
     (\<exists>num sp word post. s = num @ sp @ word @ post \<and> grouped_digits num
        \<and> list_all is_ws sp \<and> is_token_word word)"

text \<open>
  \<open>collapse_whitespace\<close>, in the words of the specification: every run of white space
  is replaced by a single space.
\<close>

function collapse_whitespace :: "jsstring \<Rightarrow> jsstring" where
  "collapse_whitespace [] = []"
| "collapse_whitespace (c # cs) =
     (if is_ws c then 32 # collapse_whitespace (dropWhile is_ws cs)
      else c # collapse_whitespace cs)"
  by pat_completeness auto
termination
  by (relation "measure length") (auto simp: le_imp_less_Suc length_dropWhile_le)

section \<open>Properties\<close>

subsection \<open>Rounding to a double\<close>

lemma round_even_err: "\<bar>of_int (round_even z) - z\<bar> \<le> 1/2"
  unfolding round_even_def Let_def by (auto simp: abs_if) linarith+

lemma round_even_of_int [simp]: "round_even (of_int n) = n"
  unfolding round_even_def Let_def by simp

lemma round_even_mono: "z \<le> w \<Longrightarrow> round_even z \<le> round_even w"
proof -
  assume le: "z \<le> w"
  have fm: "\<lfloor>z\<rfloor> \<le> \<lfloor>w\<rfloor>" using le by (rule floor_mono)
  show ?thesis
  proof (cases "\<lfloor>z\<rfloor> = \<lfloor>w\<rfloor>")
    case True
    with le show ?thesis unfolding round_even_def Let_def by auto
  next
    case False
    with fm have "\<lfloor>z\<rfloor> + 1 \<le> \<lfloor>w\<rfloor>" by simp
    moreover have "round_even z \<le> \<lfloor>z\<rfloor> + 1" unfolding round_even_def Let_def by auto
    moreover have "\<lfloor>w\<rfloor> \<le> round_even w" unfolding round_even_def Let_def by auto
    ultimately show ?thesis by linarith
  qed
qed

lemma expo_bounds:
  assumes "0 < x"
  shows "2 powi (expo x) \<le> x" and "x < 2 powi (expo x + 1)"
proof -
  have "2 powi (expo x) \<le> x \<and> x < 2 powi (expo x + 1)"
  proof (cases "1 \<le> x")
    case True
    define n where "n = \<lfloor>x\<rfloor>"
    have n1: "1 \<le> n" using True by (simp add: n_def)
    have bl: "1 \<le> bitlen n" using n1 bitlen_eq_zero_iff[of n] bitlen_nonneg[of n] by linarith
    have b: "2 ^ nat (bitlen n - 1) \<le> n" "n < 2 ^ nat (bitlen n)"
      using bitlen_bounds[of n] n1 by auto
    have b2': "n + 1 \<le> 2 ^ nat (bitlen n)" using b(2) by simp
    have e: "expo x = bitlen n - 1" using True by (simp add: expo_def n_def)
    have "(2::rat) powi (bitlen n - 1) = 2 ^ nat (bitlen n - 1)"
      using bl by (simp add: power_int_def)
    also have "\<dots> = of_int (2 ^ nat (bitlen n - 1))" by simp
    also have "\<dots> \<le> of_int n" using b(1) by (simp only: of_int_le_iff)
    also have "\<dots> \<le> x" by (simp add: n_def)
    finally have lo: "2 powi (expo x) \<le> x" by (simp add: e)
    have "x < of_int (n + 1)" unfolding n_def by linarith
    also have "\<dots> \<le> of_int (2 ^ nat (bitlen n))" using b2' by (simp only: of_int_le_iff)
    also have "\<dots> = (2::rat) powi (bitlen n)" using bl by (simp add: power_int_def)
    finally have "x < 2 powi (expo x + 1)" by (simp add: e)
    with lo show ?thesis by simp
  next
    case False
    then have x1: "x < 1" by simp
    define n where "n = \<lceil>1 / x\<rceil> - 1"
    have "1 < 1 / x" using assms x1 by simp
    then have "1 < \<lceil>1 / x\<rceil>" by (simp add: less_ceiling_iff)
    then have n1: "1 \<le> n" by (simp add: n_def)
    have bl: "1 \<le> bitlen n" using n1 bitlen_eq_zero_iff[of n] bitlen_nonneg[of n] by linarith
    have b: "2 ^ nat (bitlen n - 1) \<le> n" "n < 2 ^ nat (bitlen n)"
      using bitlen_bounds[of n] n1 by auto
    have b2': "n + 1 \<le> 2 ^ nat (bitlen n)" using b(2) by simp
    have e: "expo x = - bitlen n" using False by (simp add: expo_def n_def)
    have "1 / x \<le> of_int (n + 1)" unfolding n_def by linarith
    also have "\<dots> \<le> of_int (2 ^ nat (bitlen n))" using b2' by (simp only: of_int_le_iff)
    also have "\<dots> = (2::rat) ^ nat (bitlen n)" by simp
    finally have "1 / x \<le> 2 ^ nat (bitlen n)" .
    then have "1 \<le> 2 ^ nat (bitlen n) * x" using assms by (simp add: field_simps)
    then have lo: "2 powi (expo x) \<le> x"
      using bl by (simp add: e power_int_def field_simps)
    have "of_int n < 1 / x" unfolding n_def by linarith
    moreover have "(2::rat) ^ nat (bitlen n - 1) = of_int (2 ^ nat (bitlen n - 1))" by simp
    moreover have "of_int (2 ^ nat (bitlen n - 1)) \<le> (of_int n :: rat)" using b(1) by (simp only: of_int_le_iff)
    ultimately have "2 ^ nat (bitlen n - 1) < 1 / x" by linarith
    then have "x * 2 ^ nat (bitlen n - 1) < 1" using assms by (simp add: field_simps)
    then have "x < 1 / 2 ^ nat (bitlen n - 1)" by (simp add: pos_less_divide_eq)
    moreover have "(2::rat) powi (expo x + 1) = 1 / 2 ^ nat (bitlen n - 1)"
      using bl by (simp add: e power_int_def field_simps)
    ultimately have "x < 2 powi (expo x + 1)" by (simp only:)
    with lo show ?thesis by simp
  qed
  then show "2 powi (expo x) \<le> x" and "x < 2 powi (expo x + 1)" by simp_all
qed

lemma expo_unique:
  assumes "2 powi e \<le> x" "x < 2 powi (e + 1)"
  shows "expo x = e"
proof -
  have pos: "0 < x" using assms(1) zero_less_power_int[of "2::rat" e] by linarith
  note b = expo_bounds[OF pos]
  have "\<not> expo x < e"
  proof
    assume "expo x < e"
    then have "(2::rat) powi (expo x + 1) \<le> 2 powi e" by (intro power_int_increasing) auto
    with b(2) assms(1) show False by linarith
  qed
  moreover have "\<not> e < expo x"
  proof
    assume "e < expo x"
    then have "(2::rat) powi (e + 1) \<le> 2 powi (expo x)" by (intro power_int_increasing) auto
    with b(1) assms(2) show False by linarith
  qed
  ultimately show ?thesis by linarith
qed

lemma expo_mono: "0 < x \<Longrightarrow> x \<le> y \<Longrightarrow> expo x \<le> expo y"
proof (rule ccontr)
  assume a: "0 < x" "x \<le> y" "\<not> expo x \<le> expo y"
  then have "(2::rat) powi (expo y + 1) \<le> 2 powi (expo x)" by (intro power_int_increasing) auto
  with expo_bounds(1)[of x] expo_bounds(2)[of y] a show False by linarith
qed

lemma scaled_bounds:
  assumes "0 < x"
  shows "2 ^ 52 \<le> x / 2 powi (expo x - 52)" and "x / 2 powi (expo x - 52) < 2 ^ 53"
proof -
  have p: "(0::rat) < 2 powi (expo x - 52)" by simp
  have a: "(2::rat) powi (expo x) = 2 ^ 52 * 2 powi (expo x - 52)"
    by (simp add: power_int_diff)
  have b: "(2::rat) powi (expo x + 1) = 2 ^ 53 * 2 powi (expo x - 52)"
    by (simp add: power_int_diff power_int_add)
  show "2 ^ 52 \<le> x / 2 powi (expo x - 52)"
    using expo_bounds(1)[OF assms] p a by (simp add: pos_le_divide_eq)
  show "x / 2 powi (expo x - 52) < 2 ^ 53"
    using expo_bounds(2)[OF assms] p b by (simp add: pos_divide_less_eq)
qed

lemma mantissa_bounds:
  assumes "0 < x"
  shows "2 ^ 52 \<le> round_even (x / 2 powi (expo x - 52))"
    and "round_even (x / 2 powi (expo x - 52)) \<le> 2 ^ 53"
proof -
  have "round_even (of_int (2 ^ 52)) \<le> round_even (x / 2 powi (expo x - 52))"
    using scaled_bounds(1)[OF assms] by (intro round_even_mono) simp
  then show "2 ^ 52 \<le> round_even (x / 2 powi (expo x - 52))"
    by (simp only: round_even_of_int)
  have "round_even (x / 2 powi (expo x - 52)) \<le> round_even (of_int (2 ^ 53))"
    using scaled_bounds(2)[OF assms] by (intro round_even_mono) simp
  then show "round_even (x / 2 powi (expo x - 52)) \<le> 2 ^ 53"
    by (simp only: round_even_of_int)
qed

lemma fl_pos_bounds:
  assumes "0 < x"
  shows "2 powi (expo x) \<le> fl_pos x" and "fl_pos x \<le> 2 powi (expo x + 1)"
proof -
  let ?s = "(2::rat) powi (expo x - 52)"
  let ?m = "round_even (x / ?s)"
  have p: "0 < ?s" by simp
  have a: "(2::rat) powi (expo x) = 2 ^ 52 * ?s"
    by (simp add: power_int_diff)
  have b: "(2::rat) powi (expo x + 1) = 2 ^ 53 * ?s"
    by (simp add: power_int_diff power_int_add)
  have "(of_int (2 ^ 52) :: rat) \<le> of_int ?m"
    using mantissa_bounds(1)[OF assms] by (simp only: of_int_le_iff)
  then have "2 ^ 52 * ?s \<le> of_int ?m * ?s" using p by (simp add: mult_right_mono)
  then show "2 powi (expo x) \<le> fl_pos x" by (simp add: a fl_pos_def Let_def)
  have "(of_int ?m :: rat) \<le> of_int (2 ^ 53)"
    using mantissa_bounds(2)[OF assms] by (simp only: of_int_le_iff)
  then have "of_int ?m * ?s \<le> 2 ^ 53 * ?s" using p by (simp add: mult_right_mono)
  then show "fl_pos x \<le> 2 powi (expo x + 1)" by (simp add: b fl_pos_def Let_def)
qed

lemma fl_pos_mono:
  assumes "0 < x" "x \<le> y"
  shows "fl_pos x \<le> fl_pos y"
proof (cases "expo x = expo y")
  case True
  let ?s = "(2::rat) powi (expo y - 52)"
  have p: "0 < ?s" by simp
  have "x / ?s \<le> y / ?s" using assms(2) p by (simp add: divide_right_mono)
  then have "round_even (x / ?s) \<le> round_even (y / ?s)" by (rule round_even_mono)
  then have "(of_int (round_even (x / ?s)) :: rat) \<le> of_int (round_even (y / ?s))"
    by (simp only: of_int_le_iff)
  then have "of_int (round_even (x / ?s)) * ?s \<le> of_int (round_even (y / ?s)) * ?s"
    using p by (simp add: mult_right_mono)
  then show ?thesis by (simp add: fl_pos_def Let_def True)
next
  case False
  with expo_mono[OF assms] have "expo x + 1 \<le> expo y" by simp
  then have "(2::rat) powi (expo x + 1) \<le> 2 powi (expo y)" by (intro power_int_increasing) auto
  moreover have "0 < y" using assms by simp
  ultimately show ?thesis
    using fl_pos_bounds(2)[OF assms(1)] fl_pos_bounds(1)[of y] by linarith
qed

lemma fl_pos_pos: "0 < x \<Longrightarrow> 0 < fl_pos x"
  using fl_pos_bounds(1)[of x] zero_less_power_int[of "2::rat" "expo x"] by linarith

lemma fl_mono: "x \<le> y \<Longrightarrow> fl x \<le> fl y"
proof -
  assume le: "x \<le> y"
  consider "x = 0" | "0 < x" | "x < 0" "y < 0" | "x < 0" "0 \<le> y" by linarith
  then show ?thesis
  proof cases
    case 1
    then show ?thesis using le fl_pos_pos[of y] by (auto simp: fl_def)
  next
    case 2
    then show ?thesis using le fl_pos_mono[of x y] by (auto simp: fl_def)
  next
    case 3
    then show ?thesis using le fl_pos_mono[of "- y" "- x"] by (auto simp: fl_def)
  next
    case 4
    then show ?thesis using fl_pos_pos[of "- x"] fl_pos_pos[of y] by (auto simp: fl_def)
  qed
qed

lemma fl_pos_exact:
  assumes "0 < x" "x / 2 powi (expo x - 52) = of_int m"
  shows "fl_pos x = x"
proof -
  have "fl_pos x = of_int m * 2 powi (expo x - 52)"
    by (simp add: fl_pos_def Let_def assms(2))
  also have "\<dots> = x" using assms(2)[symmetric] by simp
  finally show ?thesis .
qed

lemma fl_pos_err:
  assumes "0 < x"
  shows "\<bar>fl_pos x - x\<bar> \<le> x / 2 ^ 53"
proof -
  let ?s = "(2::rat) powi (expo x - 52)"
  let ?z = "x / ?s"
  have p: "0 < ?s" by simp
  have x: "x = ?z * ?s" by simp
  have "fl_pos x - x = (of_int (round_even ?z) - ?z) * ?s"
    by (simp add: fl_pos_def Let_def algebra_simps)
  then have "\<bar>fl_pos x - x\<bar> = \<bar>of_int (round_even ?z) - ?z\<bar> * ?s"
    using p by (simp add: abs_mult)
  also have "\<dots> \<le> 1 / 2 * ?s" using round_even_err[of ?z] p by (intro mult_right_mono) auto
  also have "\<dots> = 2 powi (expo x) / 2 ^ 53" by (simp add: power_int_diff)
  also have "\<dots> \<le> x / 2 ^ 53" using expo_bounds(1)[OF assms] by (simp add: divide_right_mono)
  finally show ?thesis .
qed

lemma expo_less: "0 < x \<Longrightarrow> x < 2 powi k \<Longrightarrow> expo x < k"
proof (rule ccontr)
  assume a: "0 < x" "x < 2 powi k" "\<not> expo x < k"
  then have "(2::rat) powi k \<le> 2 powi (expo x)" by (intro power_int_increasing) auto
  with expo_bounds(1)[OF a(1)] a(2) show False by linarith
qed

lemma expo_scale: "0 < x \<Longrightarrow> expo (x * 2 powi k) = expo x + k"
proof (rule expo_unique)
  assume p: "0 < x"
  have "2 powi (expo x + k) = 2 powi (expo x) * (2::rat) powi k" by (simp add: power_int_add)
  also have "\<dots> \<le> x * 2 powi k" using expo_bounds(1)[OF p] by (simp add: mult_right_mono)
  finally show "2 powi (expo x + k) \<le> x * 2 powi k" .
  have "x * 2 powi k < 2 powi (expo x + 1) * (2::rat) powi k"
    using expo_bounds(2)[OF p] by (simp add: mult_strict_right_mono)
  also have "\<dots> = 2 powi (expo x + k + 1)" by (simp add: power_int_add)
  finally show "x * 2 powi k < 2 powi (expo x + k + 1)" .
qed

text \<open>An integer below \<open>2 ^ 53\<close> in magnitude, scaled by a power of two, is a double.\<close>

lemma fl_pos_dyadic:
  assumes "0 < n" "n < 2 ^ 53"
  shows "fl_pos (of_int n * 2 powi k) = of_int n * 2 powi k"
proof -
  let ?x = "(of_int n :: rat) * 2 powi k"
  have np: "(0::rat) < of_int n" using assms(1) by simp
  have xp: "0 < ?x" using np by simp
  have "(of_int n :: rat) < of_int (2 ^ 53)" using assms(2) by (simp only: of_int_less_iff)
  then have "(of_int n :: rat) < 2 powi 53" by simp
  then have e53: "expo (of_int n) < 53" using np by (rule expo_less[rotated])
  have e: "expo ?x = expo (of_int n) + k" using np by (rule expo_scale)
  define j where "j = nat (52 - expo (of_int n :: rat))"
  have j: "52 - expo (of_int n :: rat) = int j" using e53 by (simp add: j_def)
  have "?x / 2 powi (expo ?x - 52) = of_int n * 2 powi (52 - expo (of_int n :: rat))"
    by (simp add: e power_int_diff power_int_add field_simps)
  also have "\<dots> = of_int (n * 2 ^ j)" by (simp add: j)
  finally show ?thesis using xp by (rule fl_pos_exact[rotated])
qed

lemma fl_pos_eq: "0 < x \<Longrightarrow> fl x = fl_pos x"
  by (simp add: fl_def)

lemma fl_neg_eq: "x < 0 \<Longrightarrow> fl x = - fl_pos (- x)"
  by (simp add: fl_def)

lemma fl_dyadic: "\<bar>n\<bar> < 2 ^ 53 \<Longrightarrow> fl (of_int n * 2 powi k) = of_int n * 2 powi k"
proof -
  assume a: "\<bar>n\<bar> < 2 ^ 53"
  consider "n = 0" | "0 < n" | "n < 0" by linarith
  then show ?thesis
  proof cases
    case 1 then show ?thesis by (simp add: fl_def)
  next
    case 2
    then have "0 < (of_int n :: rat) * 2 powi k" by simp
    then have "fl (of_int n * 2 powi k) = fl_pos (of_int n * 2 powi k)" by (rule fl_pos_eq)
    then show ?thesis using 2 a fl_pos_dyadic[of n k] by simp
  next
    case 3
    then have "(of_int n :: rat) * 2 powi k < 0" by (simp add: mult_neg_pos)
    then have "fl (of_int n * 2 powi k) = - fl_pos (- (of_int n * 2 powi k))" by (rule fl_neg_eq)
    then show ?thesis using 3 a fl_pos_dyadic[of "- n" k] by simp
  qed
qed

lemma fl_of_int: "\<bar>n\<bar> < 2 ^ 53 \<Longrightarrow> fl (of_int n) = of_int n"
  using fl_dyadic[of n 0] by simp

lemma fl_of_nat: "n < 2 ^ 53 \<Longrightarrow> fl (of_nat n) = of_nat n"
  using fl_of_int[of "int n"] by simp

lemma fl_err: "0 \<le> x \<Longrightarrow> \<bar>fl x - x\<bar> \<le> x / 2 ^ 53"
  using fl_pos_err[of x] by (cases "x = 0") (auto simp: fl_def)

lemma fl_nonneg: "0 \<le> x \<Longrightarrow> 0 \<le> fl x"
  using fl_mono[of 0 x] by (simp add: fl_def)

lemma fl_one: "fl 1 = 1"
  using fl_of_int[of 1] by simp

lemma fl_zero: "fl 0 = 0"
  by (simp add: fl_def)

text \<open>The number for an integer is that integer up to \<open>2 ^ 53\<close>, and keeps its sign.\<close>

lemma double_of_int_exact: "\<bar>n\<bar> \<le> 2 ^ 53 \<Longrightarrow> double_of_int n = n"
proof -
  assume a: "\<bar>n\<bar> \<le> 2 ^ 53"
  consider "\<bar>n\<bar> < 2 ^ 53" | "n = 2 ^ 53" | "n = - (2 ^ 53)" using a by linarith
  then have "fl (of_int n) = of_int n"
  proof cases
    case 1 then show ?thesis by (rule fl_of_int)
  next
    case 2 then show ?thesis using fl_dyadic[of 1 53] by simp
  next
    case 3 then show ?thesis using fl_dyadic[of "- 1" 53] by simp
  qed
  then show ?thesis by (simp add: double_of_int_def)
qed

lemma double_of_int_nonneg: "0 \<le> n \<Longrightarrow> 0 \<le> double_of_int n"
proof -
  assume "0 \<le> n"
  then have "0 \<le> fl (of_int n)" by (intro fl_nonneg) simp
  then show ?thesis by (simp add: double_of_int_def)
qed

text \<open>\<open>Math.floor(n / d)\<close> is the integer quotient, for a natural number below \<open>2 ^ 53\<close>.\<close>

lemma floor_fl_div:
  assumes "n < 2 ^ 53" "0 < d"
  shows "\<lfloor>fl (of_nat n / of_nat d)\<rfloor> = int (n div d)"
proof -
  let ?x = "(of_nat n :: rat) / of_nat d"
  let ?k = "n div d"
  have dp: "(0::rat) < of_nat d" using assms(2) by simp
  have kl: "?k < 2 ^ 53" using assms(1) div_le_dividend[of n d] by linarith
  have "(of_nat (?k * d) :: rat) \<le> of_nat n" by (simp only: of_nat_le_iff) simp
  then have lo: "of_nat ?k \<le> ?x" using dp by (simp add: pos_le_divide_eq)
  have "fl (of_nat ?k) \<le> fl ?x" using lo by (rule fl_mono)
  then have 1: "of_nat ?k \<le> fl ?x" using kl by (simp add: fl_of_nat)
  have "n < (?k + 1) * d"
    using dividend_less_div_times[OF assms(2), of n] by (simp add: algebra_simps)
  then have "n + 1 \<le> (?k + 1) * d" by simp
  then have "(of_nat (n + 1) :: rat) \<le> of_nat ((?k + 1) * d)" by (simp only: of_nat_le_iff)
  then have "(of_nat n + 1 :: rat) \<le> (of_nat ?k + 1) * of_nat d" by (simp add: algebra_simps)
  then have "(of_nat n + 1) / of_nat d \<le> (of_nat ?k + 1 :: rat)"
    using dp by (simp only: pos_divide_le_eq)
  then have up: "?x + 1 / of_nat d \<le> of_nat ?k + 1" by (simp add: add_divide_distrib)
  have "(of_nat n :: rat) < of_nat (2 ^ 53)" using assms(1) by (simp only: of_nat_less_iff)
  then have "(of_nat n :: rat) / 2 ^ 53 < 1" by simp
  then have "?x / 2 ^ 53 < 1 / of_nat d" using dp by (simp add: field_simps)
  moreover have "\<bar>fl ?x - ?x\<bar> \<le> ?x / 2 ^ 53" by (rule fl_err) simp
  ultimately have 2: "fl ?x < of_nat ?k + 1" using up by linarith
  show ?thesis using 1 2 by (simp add: floor_eq_iff)
qed

text \<open>Evaluating \<open>fl\<close> at a number, from its exponent and its mantissa.\<close>

lemma round_even_eqI:
  assumes "of_int n - 1 / 2 < z" "z < of_int n + 1 / 2"
  shows "round_even z = n"
proof -
  have "\<bar>of_int (round_even z) - z\<bar> \<le> 1 / 2" by (rule round_even_err)
  then have "\<bar>(of_int (round_even z) :: rat) - of_int n\<bar> < 1" using assms by linarith
  then have "\<bar>round_even z - n\<bar> < 1" by (metis of_int_abs of_int_diff of_int_less_1_iff)
  then show ?thesis by simp
qed

lemma fl_at:
  assumes "2 powi e \<le> x" "x < 2 powi (e + 1)"
    "of_int n - 1 / 2 < x / 2 powi (e - 52)" "x / 2 powi (e - 52) < of_int n + 1 / 2"
  shows "fl x = of_int n * 2 powi (e - 52)"
proof -
  have pos: "0 < x" using assms(1) zero_less_power_int[of "2::rat" e] by linarith
  have "expo x = e" using assms(1,2) by (rule expo_unique)
  moreover have "round_even (x / 2 powi (e - 52)) = n" using assms(3,4) by (rule round_even_eqI)
  ultimately show ?thesis using pos by (simp add: fl_pos_eq fl_pos_def Let_def)
qed

lemma fl_29_200: "fl (29 / 200) = 5224175567749775 / 2 ^ 55"
  using fl_at[of "- 3" "29 / 200" 5224175567749775] by (simp add: power_int_minus)

lemma fl_29_200_times_100: "fl (5224175567749775 / 2 ^ 55 * 100) = 8162774324609023 / 2 ^ 49"
  using fl_at[of 3 "5224175567749775 / 2 ^ 55 * 100" 8162774324609023]
  by (simp add: power_int_minus)

lemma round_29000_of_200000: "Math_round (js_mul (js_div 29000 200000) 100) = 14"
proof -
  have a: "js_div 29000 200000 = 5224175567749775 / 2 ^ 55" using fl_29_200 by (simp add: js_div_def)
  have b: "js_mul (5224175567749775 / 2 ^ 55) 100 = 8162774324609023 / 2 ^ 49"
    by (simp only: js_mul_def fl_29_200_times_100)
  show ?thesis unfolding a b Math_round_def by (simp add: floor_eq_iff)
qed

lemma fl_1_200: "fl (1 / 200) = 5764607523034235 / 2 ^ 60"
  using fl_at[of "- 8" "1 / 200" 5764607523034235] by (simp add: power_int_minus)

lemma fl_1_200_times_100: "fl (5764607523034235 / 2 ^ 60 * 100) = 1 / 2"
  using fl_at[of "- 1" "5764607523034235 / 2 ^ 60 * 100" 4503599627370496]
  by (simp add: power_int_minus)

lemma round_1000_of_200000: "Math_round (js_mul (js_div 1000 200000) 100) = 1"
proof -
  have a: "js_div 1000 200000 = 5764607523034235 / 2 ^ 60" using fl_1_200 by (simp add: js_div_def)
  have b: "js_mul (5764607523034235 / 2 ^ 60) 100 = 1 / 2"
    by (simp only: js_mul_def fl_1_200_times_100)
  show ?thesis unfolding a b Math_round_def by (simp add: floor_eq_iff)
qed

text \<open>An integer within a half of a number that is not a tie is its rounding.\<close>

lemma nearest_not_tie:
  assumes "\<bar>of_int p - X\<bar> \<le> (1 / 2 :: rat)" "frac X \<noteq> 1 / 2"
  shows "p = \<lfloor>X + 1 / 2\<rfloor>"
proof -
  have lo: "of_int p - 1 / 2 \<le> X" and hi: "X \<le> of_int p + 1 / 2" using assms(1) by linarith+
  have "X \<noteq> of_int p + 1 / 2"
  proof
    assume "X = of_int p + 1 / 2"
    then have "frac X = frac (1 / 2 :: rat)" by (simp add: frac_def)
    also have "\<dots> = 1 / 2" by (simp add: frac_def floor_eq_iff)
    finally show False using assms(2) by simp
  qed
  then have "X < of_int p + 1 / 2" using hi by simp
  then show ?thesis using lo by (intro floor_unique[symmetric]) simp_all
qed

subsection \<open>Context warnings\<close>

lemma warnings_distinct: "critical_warning \<noteq> low_warning"
  by (simp add: critical_warning_def low_warning_def)

text \<open>
  Claim C9. For every token usage, \<open>getContextWarning\<close> returns the "nearly full" text
  exactly when the percentage is at least 90, otherwise the milder "usage is above 75%"
  text exactly when the percentage is at least 75, and otherwise no warning; the two texts
  differ. A percentage of 92 gives the first, 80 the second, 50 none.
\<close>

theorem getContextWarning_thresholds:
  "(getContextWarning u = Some critical_warning \<longleftrightarrow> num_ge (percentage u) 90)
   \<and> (getContextWarning u = Some low_warning \<longleftrightarrow>
        \<not> num_ge (percentage u) 90 \<and> num_ge (percentage u) 75)
   \<and> (getContextWarning u = None \<longleftrightarrow> \<not> num_ge (percentage u) 75)
   \<and> critical_warning \<noteq> low_warning
   \<and> getContextWarning \<lparr>current = c, max' = m, percentage = Some 92\<rparr> = Some critical_warning
   \<and> getContextWarning \<lparr>current = c, max' = m, percentage = Some 80\<rparr> = Some low_warning
   \<and> getContextWarning \<lparr>current = c, max' = m, percentage = Some 50\<rparr> = None"
  using warnings_distinct
  by (cases "percentage u")
     (auto simp: getContextWarning_def isContextCritical_def isContextLow_def num_ge_def)

subsection \<open>Durations\<close>

lemma formatDuration_eq:
  assumes "ms < 2 ^ 53"
  shows "formatDuration ms =
     (let h = ms div 3600000; m = (ms div 60000) mod 60 in
      if 3600000 \<le> ms
      then (if 0 < m then nat_str h @ js ''h'' @ nat_str m @ js ''m'' else nat_str h @ js ''h'')
      else nat_str m @ js ''m'')"
proof -
  have m: "Math_floor (js_div (of_nat ms) 60000) = int (ms div 60000)"
    using floor_fl_div[OF assms, of 60000] by (simp add: Math_floor_def js_div_def)
  have "ms div 60000 < 2 ^ 53" using assms div_le_dividend[of ms 60000] by linarith
  then have h: "Math_floor (js_div (of_int (int (ms div 60000))) 60) = int (ms div 60000 div 60)"
    using floor_fl_div[of "ms div 60000" 60] by (simp add: Math_floor_def js_div_def)
  have hh: "ms div 60000 div 60 = ms div 3600000" by (simp add: div_mult2_eq[symmetric])
  have r: "js_rem (int (ms div 60000)) 60 = int ((ms div 60000) mod 60)"
    by (simp add: js_rem_def sgn_if zmod_int)
  have c: "0 < ms div 3600000 \<longleftrightarrow> 3600000 \<le> ms" by (simp add: div_greater_zero_iff)
  show ?thesis
    unfolding formatDuration_def m h r hh Let_def
    by (simp add: c num_str_def)
qed

text \<open>
  Claim C5, as the code has it. For every duration \<open>ms\<close> in whole milliseconds (below
  \<open>2 ^ 53\<close>, where a double holds every integer), with \<open>X\<close> the hours and \<open>Y\<close> the
  remaining minutes: at one hour or more the formatter returns \<open>XhYm\<close> when \<open>Y\<close> is not
  zero and \<open>Xh\<close> when \<open>Y\<close> is zero; below one hour it returns \<open>Ym\<close>; below one minute
  the result is \<open>0m\<close>.
\<close>

theorem formatDuration_cases:
  assumes "ms < 2 ^ 53"
  shows "formatDuration ms =
     (if 3600000 \<le> ms
      then (if 0 < (ms div 60000) mod 60
            then nat_str (ms div 3600000) @ js ''h'' @ nat_str ((ms div 60000) mod 60) @ js ''m''
            else nat_str (ms div 3600000) @ js ''h'')
      else nat_str (ms div 60000) @ js ''m'')
     \<and> (ms < 60000 \<longrightarrow> formatDuration ms = js ''0m'')"
proof -
  have small: "(ms div 60000) mod 60 = ms div 60000" if "ms < 3600000"
    using that by (simp add: less_mult_imp_div_less)
  have zero: "nat_str 0 = js ''0''" by (simp add: nat_str.simps js_def)
  show ?thesis
    using formatDuration_eq[OF assms] small by (auto simp: Let_def zero js_def)
qed

theorem formatDuration_cases_witness:
  "formatDuration 7325000 = js ''2h2m'' \<and> formatDuration 3599999 = js ''59m''
   \<and> formatDuration 59999 = js ''0m'' \<and> formatDuration 7200000 = js ''2h''"
proof -
  have a: "(7325000::nat) < 2 ^ 53" "(3599999::nat) < 2 ^ 53" "(59999::nat) < 2 ^ 53"
    "(7200000::nat) < 2 ^ 53" by simp_all
  show ?thesis
    using formatDuration_cases[OF a(1)] formatDuration_cases[OF a(2)]
      formatDuration_cases[OF a(3)] formatDuration_cases[OF a(4)]
    by (simp add: nat_str.simps js_def)
qed

text \<open>
  The claim as the specification states it, \<open>XhYm\<close> whenever the duration is at least one
  hour, fails at exactly one hour: the result is \<open>1h\<close>.
\<close>

theorem formatDuration_hour_counterexample:
  "formatDuration 3600000 = js ''1h'' \<and> formatDuration 3600000 \<noteq> js ''1h0m''"
proof -
  have a: "(3600000::nat) < 2 ^ 53" by simp
  show ?thesis
    using formatDuration_eq[OF a] by (simp add: nat_str.simps js_def)
qed

subsection \<open>Evaluating regular expressions\<close>

lemma star_step_Nil: "star_step a s [] = []"
  by (simp add: star_step_def)

lemma star_step_Cons:
  "star_step a s (t # ts) =
     (if length t < length s then rests (Star a) t else []) @ star_step a s ts"
  by (simp add: star_step_def)

lemma rests_Star: "rests (Star a) s = star_step a s (rests a s) @ [s]"
  by (simp add: star_step_def rests.simps(4))

lemmas rx_eval = rests_Star star_step_Nil star_step_Cons Plus_def Chr_def Chr_i_def
  js_def is_ws_def is_digit_def exec_group_def parseInt_def digits_value_def
  rx_count_def rx_tokens_def rx_spaces_def double_of_int_exact

subsection \<open>Configuration\<close>

text \<open>The width of the bar is checked: whatever the environment, it stays positive.\<close>

lemma progressBarWidth_positive: "0 < progressBarWidth (loadConfig e platform)"
  by (auto simp: loadConfig_def load_windows_def load_showIcons_def load_progressBarWidth_def
        load_maxTokens_def DEFAULT_CONFIG_def Let_def split: option.splits)

text \<open>The maximum is not: every integer that \<open>parseInt\<close> reads replaces the default.\<close>

lemma maxTokens_from_env:
  "e ''STATUSLINE_MAX_TOKENS'' = Some v \<Longrightarrow> v \<noteq> [] \<Longrightarrow> parseInt v = Some n \<Longrightarrow>
     maxTokens (loadConfig e platform) = n"
  by (auto simp: loadConfig_def load_windows_def load_showIcons_def load_progressBarWidth_def
        load_maxTokens_def DEFAULT_CONFIG_def Let_def split: option.splits)

text \<open>
  Claim C2 does not hold of \<open>loadConfig\<close>. With \<open>STATUSLINE_MAX_TOKENS=0\<close> the maximum
  of the configuration is 0, and with \<open>-5\<close> it is -5, where the same values for
  \<open>STATUSLINE_PROGRESS_WIDTH\<close> are discarded; a hook that is given no model then
  computes the percentage against 0, which is \<open>NaN\<close>.
\<close>

theorem loadConfig_maxTokens_unchecked:
  "maxTokens (loadConfig [''STATUSLINE_MAX_TOKENS'' \<mapsto> js ''0''] ''linux'') = 0
   \<and> maxTokens (loadConfig [''STATUSLINE_MAX_TOKENS'' \<mapsto> js ''-5'',
         ''STATUSLINE_PROGRESS_WIDTH'' \<mapsto> js ''-5''] ''linux'') = - 5
   \<and> progressBarWidth (loadConfig [''STATUSLINE_MAX_TOKENS'' \<mapsto> js ''-5'',
         ''STATUSLINE_PROGRESS_WIDTH'' \<mapsto> js ''-5''] ''linux'') = 20
   \<and> maxTokens (loadConfig [''STATUSLINE_MAX_TOKENS'' \<mapsto> js ''abc''] ''linux'') = 200000
   \<and> percentage (calculateTokenUsage (Some (js ''1,000 tokens''))
         (maxTokens (loadConfig [''STATUSLINE_MAX_TOKENS'' \<mapsto> js ''0''] ''linux''))) = None"
proof -
  have p: "parseConversationTokens (js ''1,000 tokens'') = Some 1000"
    by (simp add: parseConversationTokens_def rx_eval)
  have m: "maxTokens (loadConfig [''STATUSLINE_MAX_TOKENS'' \<mapsto> js ''0''] ''linux'') = 0"
    by (simp add: loadConfig_def load_windows_def load_showIcons_def load_progressBarWidth_def
        load_maxTokens_def DEFAULT_CONFIG_def parseInt_def digits_value_def js_def is_ws_def
        is_digit_def double_of_int_exact)
  have c: "percentage (calculateTokenUsage (Some (js ''1,000 tokens'')) 0) = None"
    by (simp add: calculateTokenUsage_def p Math_min_def)
  show ?thesis
    unfolding m using c
    by (simp add: loadConfig_def load_windows_def load_showIcons_def load_progressBarWidth_def
        load_maxTokens_def DEFAULT_CONFIG_def parseInt_def digits_value_def js_def is_ws_def
        is_digit_def double_of_int_exact)
qed

subsection \<open>Entry points\<close>

lemmas io_defs = run_def io_bind_def try_catch_def step_def write_stdout_def write_stderr_def
  process_exit_def

text \<open>
  Claim C4, as the code has it. The entry points are the four hooks, the native
  statusline and the statusline script. In the hooks \<open>session-start.ts\<close> and
  \<open>user-prompt-submit.ts\<close> a failure anywhere in the \<open>try\<close> block is caught, and when
  the two writes of the \<open>catch\<close> block succeed the process ends with code 0 and the
  envelope that has the hook's own event name only is the last document on standard
  output: the only one when the failure came before the output was written, the second
  one, after the full output, when it came later (formatting or logging the compact
  line). The exit code is 0 unless the \<open>try\<close> block fails and a write of the \<open>catch\<close>
  block fails too, which nothing handles: then it is 1. The hooks \<open>session-start.mjs\<close>
  and \<open>user-prompt-submit.mjs\<close> do the same, without a log. The native statusline
  \<open>src/index.ts\<close> catches a failure of the rendering, prints the message to standard
  error, prints no line and ends with code 1; its exit code is 0 only when nothing
  fails. The script \<open>scripts/statusline.mjs\<close> catches nothing: on a failure it prints no
  line and ends with code 1. (A hook in which nothing fails writes its full output
  alone.)
\<close>

theorem entry_points_on_failure:
  "session_start_main env = hook_main (js ''SessionStart'') env
   \<and> user_prompt_submit_main env = hook_main (js ''UserPromptSubmit'') env
   \<and> (composition env = Returns out \<and> output_write env = Returns ()
        \<and> compact_line env = Returns line \<and> line_log env = Returns () \<longrightarrow>
       run (hook_main ownEvent env) =
         \<lparr>stdout = [out], stderr = [js ''[Statusline] '' @ line], exited = Some 0\<rparr>)
   \<and> (error_log env = Returns () \<and> envelope_write env = Returns ()
        \<and> (composition env = Throws e
             \<or> composition env = Returns out \<and> output_write env = Throws e) \<longrightarrow>
       run (hook_main ownEvent env) =
         \<lparr>stdout = [envelope ownEvent],
          stderr = [js ''[Statusline] Error: '' @ text_of e], exited = Some 0\<rparr>)
   \<and> (error_log env = Returns () \<and> envelope_write env = Returns ()
        \<and> composition env = Returns out \<and> output_write env = Returns ()
        \<and> (compact_line env = Throws e
             \<or> compact_line env = Returns line \<and> line_log env = Throws e) \<longrightarrow>
       run (hook_main ownEvent env) =
         \<lparr>stdout = [out, envelope ownEvent],
          stderr = [js ''[Statusline] Error: '' @ text_of e], exited = Some 0\<rparr>)
   \<and> exited (run (hook_main ownEvent env)) =
       Some (if (\<exists>x. composition env = Throws x \<or> output_write env = Throws x
                    \<or> compact_line env = Throws x \<or> line_log env = Throws x)
                \<and> (\<exists>x. error_log env = Throws x \<or> envelope_write env = Throws x)
             then 1 else 0)
   \<and> (script_envelope_write senv = Returns ()
        \<and> (script_composition senv = Throws e
             \<or> script_composition senv = Returns (out, line)
                \<and> script_output_write senv = Throws e) \<longrightarrow>
       run (session_start_mjs_main senv) =
         \<lparr>stdout = [envelope (js ''SessionStart'')], stderr = [], exited = Some 0\<rparr>
       \<and> run (user_prompt_submit_mjs_main senv) =
         \<lparr>stdout = [envelope (js ''UserPromptSubmit'')], stderr = [], exited = Some 0\<rparr>)
   \<and> (script_envelope_write senv = Returns ()
        \<and> script_composition senv = Returns (out, line)
        \<and> script_output_write senv = Returns () \<and> script_line_log senv = Throws e \<longrightarrow>
       run (session_start_mjs_main senv) =
         \<lparr>stdout = [out, envelope (js ''SessionStart'')], stderr = [], exited = Some 0\<rparr>)
   \<and> exited (run (session_start_mjs_main senv)) =
       Some (if (\<exists>x. script_composition senv = Throws x \<or> script_output_write senv = Throws x
                    \<or> script_line_log senv = Throws x)
                \<and> (\<exists>x. script_envelope_write senv = Throws x)
             then 1 else 0)
   \<and> exited (run (user_prompt_submit_mjs_main senv)) =
       Some (if (\<exists>x. script_composition senv = Throws x \<or> script_output_write senv = Throws x)
                \<and> (\<exists>x. script_envelope_write senv = Throws x)
             then 1 else 0)
   \<and> (rendering nenv = Throws e \<longrightarrow>
       stdout (run (index_main nenv)) = []
       \<and> exited (run (index_main nenv)) = Some 1
       \<and> (error_print nenv = Returns () \<longrightarrow>
            stderr (run (index_main nenv)) = [js ''Error: '' @ message_of e]))
   \<and> exited (run (index_main nenv)) =
       Some (if \<exists>rendered oneLine. rendering nenv = Returns (rendered, oneLine)
                  \<and> output_print nenv = Returns ()
                  \<and> (oneLine \<or> newline_print nenv = Returns ())
             then 0 else 1)
   \<and> run (statusline_mjs_main (Throws e) printed) =
       \<lparr>stdout = [], stderr = [], exited = Some 1\<rparr>
   \<and> exited (run (statusline_mjs_main built printed)) =
       Some (if (\<exists>x. built = Throws x \<or> printed = Throws x) then 1 else 0)"
proof (intro conjI impI)
  show "session_start_main env = hook_main (js ''SessionStart'') env"
    by (simp add: session_start_main_def)
  show "user_prompt_submit_main env = hook_main (js ''UserPromptSubmit'') env"
    by (simp add: user_prompt_submit_main_def)
  show "run (statusline_mjs_main (Throws e) printed) = \<lparr>stdout = [], stderr = [], exited = Some 1\<rparr>"
    by (simp add: statusline_mjs_main_def io_defs)
next
  assume "composition env = Returns out \<and> output_write env = Returns ()
      \<and> compact_line env = Returns line \<and> line_log env = Returns ()"
  then show "run (hook_main ownEvent env) =
      \<lparr>stdout = [out], stderr = [js ''[Statusline] '' @ line], exited = Some 0\<rparr>"
    by (auto simp: hook_main_def io_defs)
next
  assume "error_log env = Returns () \<and> envelope_write env = Returns ()
      \<and> (composition env = Throws e
           \<or> composition env = Returns out \<and> output_write env = Throws e)"
  then show "run (hook_main ownEvent env) =
      \<lparr>stdout = [envelope ownEvent],
       stderr = [js ''[Statusline] Error: '' @ text_of e], exited = Some 0\<rparr>"
    by (auto simp: hook_main_def io_defs)
next
  assume "error_log env = Returns () \<and> envelope_write env = Returns ()
      \<and> composition env = Returns out \<and> output_write env = Returns ()
      \<and> (compact_line env = Throws e
           \<or> compact_line env = Returns line \<and> line_log env = Throws e)"
  then show "run (hook_main ownEvent env) =
      \<lparr>stdout = [out, envelope ownEvent],
       stderr = [js ''[Statusline] Error: '' @ text_of e], exited = Some 0\<rparr>"
    by (auto simp: hook_main_def io_defs)
next
  show "exited (run (hook_main ownEvent env)) =
      Some (if (\<exists>x. composition env = Throws x \<or> output_write env = Throws x
                   \<or> compact_line env = Throws x \<or> line_log env = Throws x)
               \<and> (\<exists>x. error_log env = Throws x \<or> envelope_write env = Throws x)
            then 1 else 0)"
    by (cases "composition env"; cases "output_write env"; cases "compact_line env";
        cases "line_log env"; cases "error_log env"; cases "envelope_write env")
      (simp_all add: hook_main_def io_defs ex_disj_distrib case_prod_beta)
next
  assume a: "script_envelope_write senv = Returns ()
      \<and> (script_composition senv = Throws e
           \<or> script_composition senv = Returns (out, line)
              \<and> script_output_write senv = Throws e)"
  then show "run (session_start_mjs_main senv) =
      \<lparr>stdout = [envelope (js ''SessionStart'')], stderr = [], exited = Some 0\<rparr>"
    by (auto simp: session_start_mjs_main_def io_defs)
  from a show "run (user_prompt_submit_mjs_main senv) =
      \<lparr>stdout = [envelope (js ''UserPromptSubmit'')], stderr = [], exited = Some 0\<rparr>"
    by (auto simp: user_prompt_submit_mjs_main_def io_defs)
next
  assume "script_envelope_write senv = Returns ()
      \<and> script_composition senv = Returns (out, line)
      \<and> script_output_write senv = Returns () \<and> script_line_log senv = Throws e"
  then show "run (session_start_mjs_main senv) =
      \<lparr>stdout = [out, envelope (js ''SessionStart'')], stderr = [], exited = Some 0\<rparr>"
    by (auto simp: session_start_mjs_main_def io_defs)
next
  show "exited (run (session_start_mjs_main senv)) =
      Some (if (\<exists>x. script_composition senv = Throws x \<or> script_output_write senv = Throws x
                   \<or> script_line_log senv = Throws x)
               \<and> (\<exists>x. script_envelope_write senv = Throws x)
            then 1 else 0)"
    by (cases "script_composition senv"; cases "script_output_write senv";
        cases "script_line_log senv"; cases "script_envelope_write senv")
      (simp_all add: session_start_mjs_main_def io_defs ex_disj_distrib case_prod_beta)
  show "exited (run (user_prompt_submit_mjs_main senv)) =
      Some (if (\<exists>x. script_composition senv = Throws x \<or> script_output_write senv = Throws x)
               \<and> (\<exists>x. script_envelope_write senv = Throws x)
            then 1 else 0)"
    by (cases "script_composition senv"; cases "script_output_write senv";
        cases "script_envelope_write senv")
      (simp_all add: user_prompt_submit_mjs_main_def io_defs ex_disj_distrib case_prod_beta)
  show "exited (run (index_main nenv)) =
      Some (if \<exists>rendered oneLine. rendering nenv = Returns (rendered, oneLine)
                 \<and> output_print nenv = Returns ()
                 \<and> (oneLine \<or> newline_print nenv = Returns ())
            then 0 else 1)"
  proof (cases "rendering nenv")
    case (Throws x)
    then show ?thesis by (cases "error_print nenv") (simp_all add: index_main_def io_defs)
  next
    case (Returns r)
    obtain rendered oneLine where r: "r = (rendered, oneLine)" by (cases r)
    show ?thesis
      by (cases "output_print nenv"; cases "newline_print nenv"; cases "error_print nenv";
          cases oneLine; simp add: index_main_def io_defs Returns r; blast)
  qed
  show "exited (run (statusline_mjs_main built printed)) =
      Some (if (\<exists>x. built = Throws x \<or> printed = Throws x) then 1 else 0)"
    by (cases built; cases printed)
      (simp_all add: statusline_mjs_main_def io_defs ex_disj_distrib case_prod_beta)
next
  assume a: "rendering nenv = Throws e"
  then show "stdout (run (index_main nenv)) = []"
    by (auto simp: index_main_def io_defs split: outcome.splits)
  from a show "exited (run (index_main nenv)) = Some 1"
    by (auto simp: index_main_def io_defs split: outcome.splits)
  assume "error_print nenv = Returns ()"
  with a show "stderr (run (index_main nenv)) = [js ''Error: '' @ message_of e]"
    by (auto simp: index_main_def io_defs)
qed


theorem entry_points_on_failure_witness:
  "run (session_start_main
       \<lparr>composition = Throws (Thrown (js ''TypeError: boom'') (js ''boom'')),
        output_write = Returns (), compact_line = Returns (js ''main''),
        line_log = Returns (), error_log = Returns (), envelope_write = Returns ()\<rparr>) =
     \<lparr>stdout = [\<lparr>hookEventName = js ''SessionStart'', additionalContext = None,
                 systemMessage = None\<rparr>],
      stderr = [js ''[Statusline] Error: TypeError: boom''], exited = Some 0\<rparr>
   \<and> run (user_prompt_submit_main
       \<lparr>composition = Returns \<lparr>hookEventName = js ''UserPromptSubmit'',
          additionalContext = Some (js ''ctx''), systemMessage = None\<rparr>,
        output_write = Returns (),
        compact_line = Throws (Thrown (js ''RangeError: n'') (js ''n'')),
        line_log = Returns (), error_log = Returns (), envelope_write = Returns ()\<rparr>) =
     \<lparr>stdout = [\<lparr>hookEventName = js ''UserPromptSubmit'',
                   additionalContext = Some (js ''ctx''), systemMessage = None\<rparr>,
                \<lparr>hookEventName = js ''UserPromptSubmit'', additionalContext = None,
                   systemMessage = None\<rparr>],
      stderr = [js ''[Statusline] Error: RangeError: n''], exited = Some 0\<rparr>
   \<and> run (session_start_mjs_main
       \<lparr>script_composition = Throws (Thrown (js ''Error: boom'') (js ''boom'')),
        script_output_write = Returns (), script_line_log = Returns (),
        script_envelope_write = Returns ()\<rparr>) =
     \<lparr>stdout = [\<lparr>hookEventName = js ''SessionStart'', additionalContext = None,
                 systemMessage = None\<rparr>],
      stderr = [], exited = Some 0\<rparr>
   \<and> exited (run (index_main
       \<lparr>rendering = Throws (Thrown (js ''Error: boom'') (js ''boom'')),
        output_print = Returns (), newline_print = Returns (), error_print = Returns ()\<rparr>)) =
     Some 1
   \<and> stderr (run (index_main
       \<lparr>rendering = Throws (Thrown (js ''Error: boom'') (js ''boom'')),
        output_print = Returns (), newline_print = Returns (), error_print = Returns ()\<rparr>)) =
     [js ''Error: boom'']"
proof -
  let ?boom = "Thrown (js ''Error: boom'') (js ''boom'')"
  let ?env1 = "\<lparr>composition = Throws (Thrown (js ''TypeError: boom'') (js ''boom'')),
      output_write = Returns (), compact_line = Returns (js ''main''),
      line_log = Returns (), error_log = Returns (), envelope_write = Returns ()\<rparr>"
  let ?out = "\<lparr>hookEventName = js ''UserPromptSubmit'',
      additionalContext = Some (js ''ctx''), systemMessage = None\<rparr>"
  let ?env2 = "\<lparr>composition = Returns ?out, output_write = Returns (),
      compact_line = Throws (Thrown (js ''RangeError: n'') (js ''n'')),
      line_log = Returns (), error_log = Returns (), envelope_write = Returns ()\<rparr>"
  let ?senv = "\<lparr>script_composition = Throws ?boom,
      script_output_write = Returns (), script_line_log = Returns (),
      script_envelope_write = Returns ()\<rparr>"
  let ?nenv = "\<lparr>rendering = Throws ?boom,
      output_print = Returns (), newline_print = Returns (), error_print = Returns ()\<rparr>"
  have 1: "run (session_start_main ?env1) =
      \<lparr>stdout = [envelope (js ''SessionStart'')],
       stderr = [js ''[Statusline] Error: '' @ js ''TypeError: boom''], exited = Some 0\<rparr>"
    using entry_points_on_failure[where env = ?env1 and ownEvent = "js ''SessionStart''"
        and e = "Thrown (js ''TypeError: boom'') (js ''boom'')"]
    by simp
  have 2: "run (user_prompt_submit_main ?env2) =
      \<lparr>stdout = [?out, envelope (js ''UserPromptSubmit'')],
       stderr = [js ''[Statusline] Error: '' @ js ''RangeError: n''], exited = Some 0\<rparr>"
    using entry_points_on_failure[where env = ?env2 and ownEvent = "js ''UserPromptSubmit''"
        and e = "Thrown (js ''RangeError: n'') (js ''n'')" and out = ?out]
    by simp
  have 3: "run (session_start_mjs_main ?senv) =
      \<lparr>stdout = [envelope (js ''SessionStart'')], stderr = [], exited = Some 0\<rparr>"
    using entry_points_on_failure[where senv = ?senv and e = ?boom] by simp
  have 4: "exited (run (index_main ?nenv)) = Some 1
      \<and> stderr (run (index_main ?nenv)) = [js ''Error: '' @ js ''boom'']"
    using entry_points_on_failure[where nenv = ?nenv and e = ?boom] by simp
  show ?thesis using 1 2 3 4 by (simp add: envelope_def js_def)
qed

text \<open>
  The claim as the specification states it, a downgraded output and exit code 0 for every
  entry point, fails for the native statusline and for the script, which print no line
  and end with code 1; and a hook whose compact line fails after the output was written
  leaves two documents on standard output, not the envelope alone.
\<close>

theorem entry_points_exit_counterexample:
  "run (index_main
       \<lparr>rendering = Throws (Thrown (js ''Error: boom'') (js ''boom'')),
        output_print = Returns (), newline_print = Returns (), error_print = Returns ()\<rparr>) =
     \<lparr>stdout = [], stderr = [js ''Error: boom''], exited = Some 1\<rparr>
   \<and> run (statusline_mjs_main (Throws (Thrown (js ''RangeError: n'') (js ''n''))) (Returns ())) =
     \<lparr>stdout = [], stderr = [], exited = Some 1\<rparr>
   \<and> stdout (run (session_start_main
       \<lparr>composition = Returns \<lparr>hookEventName = js ''SessionStart'',
          additionalContext = Some (js ''ctx''), systemMessage = None\<rparr>,
        output_write = Returns (),
        compact_line = Throws (Thrown (js ''RangeError: n'') (js ''n'')),
        line_log = Returns (), error_log = Returns (), envelope_write = Returns ()\<rparr>)) =
     [\<lparr>hookEventName = js ''SessionStart'', additionalContext = Some (js ''ctx''),
        systemMessage = None\<rparr>,
      \<lparr>hookEventName = js ''SessionStart'', additionalContext = None, systemMessage = None\<rparr>]"
  by (simp add: index_main_def statusline_mjs_main_def session_start_main_def hook_main_def
      envelope_def io_defs js_def)

subsection \<open>Paths\<close>

lemma git_formatPath_deep: "git_formatPath (js ''src/a/b/c'') = js ''~/src/.../c''"
  by (simp add: git_formatPath_def js_def)


text \<open>
  The formatter of the hooks has no modes: a path of more than two segments is shortened
  to its first and its last segment around the marker \<open>...\<close>.
\<close>

lemma git_formatPath_segments:
  assumes "2 < length (split_where (\<lambda>c. c = 47) relativePath)"
  shows "git_formatPath relativePath =
     js ''~/'' @ hd (split_where (\<lambda>c. c = 47) relativePath) @ js ''/.../''
       @ last (split_where (\<lambda>c. c = 47) relativePath)"
proof -
  let ?segments = "split_where (\<lambda>c. c = 47) relativePath"
  have ne: "?segments \<noteq> []" using assms by auto
  have "relativePath \<noteq> js ''.''" using assms by (auto simp: js_def)
  moreover have "?segments ! 0 = hd ?segments" using ne by (simp add: hd_conv_nth)
  moreover have "?segments ! (length ?segments - 1) = last ?segments"
    using ne by (simp add: last_conv_nth)
  ultimately show ?thesis using assms by (simp add: git_formatPath_def Let_def)
qed




subsection \<open>Progress bars: the arithmetic\<close>

lemma braille_totalSteps_eq: "6 * len < 2 ^ 53 \<Longrightarrow> braille_totalSteps len = of_nat (6 * len)"
proof -
  assume a: "6 * len < 2 ^ 53"
  have "braille_totalSteps len = fl (of_nat (6 * len))"
    by (simp add: braille_totalSteps_def js_mul_def brailleChars_def mult.commute)
  then show ?thesis using a by (simp only: fl_of_nat)
qed

lemma scaled_round_mono:
  assumes "0 \<le> t" "p \<le> q"
  shows "Math_round (js_mul (js_div p 100) t) \<le> Math_round (js_mul (js_div q 100) t)"
proof -
  have "fl (p / 100) \<le> fl (q / 100)" using assms(2) by (intro fl_mono) simp
  then have "fl (p / 100) * t \<le> fl (q / 100) * t" using assms(1) by (rule mult_right_mono)
  then have "fl (fl (p / 100) * t) \<le> fl (fl (q / 100) * t)" by (rule fl_mono)
  then show ?thesis unfolding Math_round_def js_mul_def js_div_def by (intro floor_mono) simp
qed

lemma scaled_round_zero: "Math_round (js_mul (js_div 0 100) t) = 0"
  by (simp add: Math_round_def js_mul_def js_div_def fl_zero floor_eq_iff)

lemma scaled_round_full:
  assumes "n < 2 ^ 53"
  shows "Math_round (js_mul (js_div 100 100) (of_nat n)) = int n"
proof -
  have "Math_round (js_mul (js_div 100 100) (of_nat n)) = \<lfloor>fl (of_nat n) + 1 / 2\<rfloor>"
    by (simp add: Math_round_def js_mul_def js_div_def fl_one)
  also have "\<dots> = \<lfloor>(of_nat n :: rat) + 1 / 2\<rfloor>" using assms by (simp only: fl_of_nat)
  also have "\<dots> = int n" by (simp add: floor_eq_iff)
  finally show ?thesis .
qed

lemma scaled_round_bounds:
  assumes "n < 2 ^ 53" "0 \<le> p" "p \<le> 100"
  shows "0 \<le> Math_round (js_mul (js_div p 100) (of_nat n))"
    and "Math_round (js_mul (js_div p 100) (of_nat n)) \<le> int n"
proof -
  have "Math_round (js_mul (js_div 0 100) (of_nat n)) \<le> Math_round (js_mul (js_div p 100) (of_nat n))"
    using assms(2) by (intro scaled_round_mono) simp_all
  then show "0 \<le> Math_round (js_mul (js_div p 100) (of_nat n))"
    by (simp only: scaled_round_zero)
  have "Math_round (js_mul (js_div p 100) (of_nat n)) \<le> Math_round (js_mul (js_div 100 100) (of_nat n))"
    using assms(3) by (intro scaled_round_mono) simp_all
  then show "Math_round (js_mul (js_div p 100) (of_nat n)) \<le> int n"
    using assms(1) by (simp only: scaled_round_full)
qed

lemma braille_arith:
  assumes "6 * len < 2 ^ 53" "0 \<le> p" "p \<le> 100"
  shows "0 \<le> braille_currentStep p len" "braille_currentStep p len \<le> 6 * int len"
    "braille_fullBlocks p len = braille_currentStep p len div 6"
    "braille_partialIndex p len = braille_currentStep p len mod 6"
proof -
  have T: "braille_totalSteps len = of_nat (6 * len)" using assms(1) by (rule braille_totalSteps_eq)
  show c0: "0 \<le> braille_currentStep p len"
    unfolding braille_currentStep_def T using assms by (intro scaled_round_bounds(1)) simp_all
  have "braille_currentStep p len \<le> int (6 * len)"
    unfolding braille_currentStep_def T using assms by (intro scaled_round_bounds(2)) simp_all
  then show c1: "braille_currentStep p len \<le> 6 * int len" by simp
  define c where "c = nat (braille_currentStep p len)"
  have c: "braille_currentStep p len = int c" using c0 by (simp add: c_def)
  have cl: "c < 2 ^ 53" using c1 assms(1) c by linarith
  have "braille_fullBlocks p len = \<lfloor>fl (of_nat c / of_nat 6)\<rfloor>"
    by (simp add: braille_fullBlocks_def Math_floor_def js_div_def c brailleChars_def)
  also have "\<dots> = int (c div 6)" using cl by (intro floor_fl_div) simp_all
  finally show "braille_fullBlocks p len = braille_currentStep p len div 6"
    by (simp add: c zdiv_int)
  show "braille_partialIndex p len = braille_currentStep p len mod 6"
    by (simp add: braille_partialIndex_def js_rem_def c brailleChars_def sgn_if zmod_int)
qed

text \<open>
  \<open>Math.round((p / 100) * t)\<close> against the exact \<open>p * t / 100\<close>: the two roundings to a
  double move the product by at most \<open>t / 2 ^ 52\<close> before it is rounded to an integer.
\<close>

lemma scaled_round_close:
  assumes "0 \<le> p" "p \<le> 100"
  shows "of_int (Math_round (js_mul (js_div p 100) (of_nat t))) - 1 / 2 - of_nat t / 2 ^ 52
           \<le> p * of_nat t / 100"
    and "p * of_nat t / 100
           < of_int (Math_round (js_mul (js_div p 100) (of_nat t))) + 1 / 2 + of_nat t / 2 ^ 52"
proof -
  define x :: rat where "x = p / 100"
  define q where "q = fl x"
  define T :: rat where "T = of_nat t"
  define P where "P = fl (q * T)"
  define c where "c = \<lfloor>P + 1 / 2\<rfloor>"
  have ce: "Math_round (js_mul (js_div p 100) (of_nat t)) = c"
    by (simp add: Math_round_def js_mul_def js_div_def c_def P_def q_def x_def T_def)
  have T0: "0 \<le> T" by (simp add: T_def)
  have x0: "0 \<le> x" and x1: "x \<le> 1" using assms by (simp_all add: x_def)
  have q0: "0 \<le> q" unfolding q_def using x0 by (rule fl_nonneg)
  have "fl x \<le> fl 1" using x1 by (rule fl_mono)
  then have q1: "q \<le> 1" by (simp add: q_def fl_one)
  have eq: "\<bar>q - x\<bar> \<le> x / 2 ^ 53" unfolding q_def using x0 by (rule fl_err)
  have xs: "x / 2 ^ 53 \<le> 1 / 2 ^ 53" using x1 by (intro divide_right_mono) simp_all
  have qx: "q - x \<le> 1 / 2 ^ 53" "x - q \<le> 1 / 2 ^ 53" using eq xs by linarith+
  have m1: "(q - x) * T \<le> 1 / 2 ^ 53 * T" using qx(1) T0 by (rule mult_right_mono)
  have m2: "(x - q) * T \<le> 1 / 2 ^ 53 * T" using qx(2) T0 by (rule mult_right_mono)
  have "\<bar>P - q * T\<bar> \<le> q * T / 2 ^ 53" unfolding P_def using q0 T0 by (intro fl_err) simp
  moreover have "q * T / 2 ^ 53 \<le> 1 * T / 2 ^ 53"
    using q1 T0 by (intro divide_right_mono mult_right_mono) simp_all
  ultimately have eP: "P - q * T \<le> T / 2 ^ 53" "q * T - P \<le> T / 2 ^ 53" by linarith+
  have d1: "P - x * T \<le> T / 2 ^ 52" using eP(1) m1 by (simp add: algebra_simps)
  have d2: "x * T - P \<le> T / 2 ^ 52" using eP(2) m2 by (simp add: algebra_simps)
  have f: "of_int c \<le> P + 1 / 2" "P + 1 / 2 < of_int c + 1" unfolding c_def by linarith+
  have X: "p * of_nat t / 100 = x * T" by (simp add: x_def T_def)
  show "of_int (Math_round (js_mul (js_div p 100) (of_nat t))) - 1 / 2 - of_nat t / 2 ^ 52
      \<le> p * of_nat t / 100"
    unfolding ce X using d1 f(1) by (simp add: T_def)
  show "p * of_nat t / 100
      < of_int (Math_round (js_mul (js_div p 100) (of_nat t))) + 1 / 2 + of_nat t / 2 ^ 52"
    unfolding ce X using d2 f(2) by (simp add: T_def)
qed

text \<open>
  For a whole percentage and at most \<open>2 ^ 44\<close> steps the result is an integer nearest to
  the exact product: \<open>200 * (p * t / 100)\<close> is an integer, and the error is below
  \<open>1 / 200\<close>.
\<close>

lemma scaled_round_near:
  assumes "0 \<le> n" "n \<le> 100" "t \<le> 2 ^ 44"
  shows "\<bar>of_int (Math_round (js_mul (js_div (of_int n) 100) (of_nat t)))
           - of_int n * of_nat t / (100 :: rat)\<bar> \<le> 1 / 2"
proof -
  define c where "c = Math_round (js_mul (js_div (of_int n) 100) (of_nat t))"
  define X :: rat where "X = of_int n * of_nat t / 100"
  define eps :: rat where "eps = of_nat t / 2 ^ 52"
  have p: "(0::rat) \<le> of_int n" "(of_int n :: rat) \<le> 100" using assms(1,2) by simp_all
  note cl = scaled_round_close[OF p, of t, folded c_def X_def eps_def]
  have "(of_nat t :: rat) \<le> of_nat (2 ^ 44)" using assms(3) by (simp only: of_nat_le_iff)
  then have "(of_nat t :: rat) \<le> 2 ^ 44" by simp
  then have e: "200 * eps < 1" by (simp add: eps_def)
  have X2: "200 * X = of_int (2 * n * int t)" by (simp add: X_def)
  have "of_int (200 * c - 100) - 1 < 200 * X" using cl(1) e by simp
  then have "(of_int (200 * c - 100 - 1) :: rat) < of_int (2 * n * int t)" unfolding X2 by simp
  then have "200 * c - 100 - 1 < 2 * n * int t" by (simp only: of_int_less_iff)
  then have "200 * c - 100 \<le> 2 * n * int t" by simp
  then have "(of_int (200 * c - 100) :: rat) \<le> of_int (2 * n * int t)" by (simp only: of_int_le_iff)
  then have L: "of_int c - 1 / 2 \<le> X" unfolding X2[symmetric] by simp
  have "200 * X < of_int (200 * c + 100) + 1" using cl(2) e by simp
  then have "(of_int (2 * n * int t) :: rat) < of_int (200 * c + 100 + 1)" unfolding X2 by simp
  then have "2 * n * int t < 200 * c + 100 + 1" by (simp only: of_int_less_iff)
  then have "2 * n * int t \<le> 200 * c + 100" by simp
  then have "(of_int (2 * n * int t) :: rat) \<le> of_int (200 * c + 100)" by (simp only: of_int_le_iff)
  then have U: "X \<le> of_int c + 1 / 2" unfolding X2[symmetric] by simp
  have "\<bar>of_int c - X\<bar> \<le> 1 / 2" using L U by linarith
  then show ?thesis by (simp add: c_def X_def)
qed

text \<open>35 percent of 90 steps: the product is \<open>31.499999999999996\<close>, not 31.5.\<close>

lemma fl_7_20: "fl (7 / 20) = 6305039478318694 / 2 ^ 54"
  using fl_at[of "- 2" "7 / 20" 6305039478318694] by (simp add: power_int_minus)

lemma fl_7_20_times_90: "fl (6305039478318694 / 2 ^ 54 * 90) = 8866461766385663 / 2 ^ 48"
  using fl_at[of 4 "6305039478318694 / 2 ^ 54 * 90" 8866461766385663]
  by (simp add: power_int_minus)

lemma round_35_of_90: "Math_round (js_mul (js_div 35 100) 90) = 31"
proof -
  have a: "js_div 35 100 = 6305039478318694 / 2 ^ 54" using fl_7_20 by (simp add: js_div_def)
  have b: "js_mul (6305039478318694 / 2 ^ 54) 90 = 8866461766385663 / 2 ^ 48"
    by (simp only: js_mul_def fl_7_20_times_90)
  show ?thesis unfolding a b Math_round_def by (simp add: floor_eq_iff)
qed

lemma fl_half: "fl (1 / 2) = 1 / 2"
  using fl_dyadic[of 1 "- 1"] by (simp add: power_int_minus)


text \<open>
  Claim C3, as the code has it. For the braille style (seven glyphs, six steps to a
  block), every bar length \<open>len \<ge> 1\<close> for which \<open>6 * len\<close> is an integer that a double
  holds (below \<open>2 ^ 53\<close>), and all percentages \<open>0 \<le> p \<le> q \<le> 100\<close>: \<open>currentStep\<close> does
  not decrease from \<open>p\<close> to \<open>q\<close>, is 0 at 0 and \<open>6 * len\<close> at 100, and lies within
  \<open>1 / 2 + 6 * len / 2 ^ 52\<close> of \<open>p / 100 * (6 * len)\<close>; for a whole percentage and
  \<open>6 * len \<le> 2 ^ 44\<close> it is an integer nearest to that product, so it is
  \<open>round (p / 100 * (6 * len))\<close> unless the product is exactly halfway between two
  integers. \<open>fullBlocks\<close> is the integer quotient of \<open>currentStep\<close> by 6 and
  \<open>partialIndex\<close> the remainder; \<open>fullBlocks \<le> len\<close>; \<open>emptyBlocks\<close> is not negative;
  and \<open>fullBlocks + emptyBlocks + (1 if partialIndex > 0 else 0) = len\<close>.
\<close>

theorem braille_steps:
  assumes "1 \<le> len" "6 * len < 2 ^ 53" "0 \<le> p" "p \<le> q" "q \<le> 100"
  shows "braille_currentStep p len \<le> braille_currentStep q len
     \<and> braille_currentStep 0 len = 0
     \<and> braille_currentStep 100 len = 6 * int len
     \<and> \<bar>of_int (braille_currentStep p len) - p / 100 * of_nat (6 * len)\<bar>
          \<le> 1 / 2 + of_nat (6 * len) / 2 ^ 52
     \<and> (of_int \<lfloor>p\<rfloor> = p \<and> 6 * len \<le> 2 ^ 44 \<longrightarrow>
          \<bar>of_int (braille_currentStep p len) - p / 100 * of_nat (6 * len)\<bar> \<le> 1 / 2
          \<and> (frac (p / 100 * of_nat (6 * len)) \<noteq> 1 / 2 \<longrightarrow>
               braille_currentStep p len = \<lfloor>p / 100 * of_nat (6 * len) + 1 / 2\<rfloor>))
     \<and> braille_fullBlocks p len = braille_currentStep p len div 6
     \<and> braille_partialIndex p len = braille_currentStep p len mod 6
     \<and> braille_fullBlocks p len \<le> int len
     \<and> 0 \<le> braille_emptyBlocks p len
     \<and> braille_fullBlocks p len + braille_emptyBlocks p len
         + (if 0 < braille_partialIndex p len then 1 else 0) = int len"
proof -
  have p100: "p \<le> 100" using assms by linarith
  note a = braille_arith[OF assms(2) assms(3) p100]
  have T: "braille_totalSteps len = of_nat (6 * len)" using assms(2) by (rule braille_totalSteps_eq)
  have mono: "braille_currentStep p len \<le> braille_currentStep q len"
    unfolding braille_currentStep_def T using assms(4) by (intro scaled_round_mono) simp_all
  have z: "braille_currentStep 0 len = 0"
    unfolding braille_currentStep_def by (rule scaled_round_zero)
  have "braille_currentStep 100 len = int (6 * len)"
    unfolding braille_currentStep_def T using assms(2) by (rule scaled_round_full)
  then have h: "braille_currentStep 100 len = 6 * int len" by simp
  have X: "p / 100 * of_nat (6 * len) = p * of_nat (6 * len) / (100 :: rat)" by simp
  have cs: "Math_round (js_mul (js_div p 100) (of_nat (6 * len))) = braille_currentStep p len"
    unfolding braille_currentStep_def T ..
  note cl = scaled_round_close[OF assms(3) p100, of "6 * len", unfolded cs]
  have near: "\<bar>of_int (braille_currentStep p len) - p / 100 * of_nat (6 * len)\<bar>
      \<le> 1 / 2 + of_nat (6 * len) / 2 ^ 52"
    unfolding X using cl by linarith
  have whole: "\<bar>of_int (braille_currentStep p len) - p / 100 * of_nat (6 * len)\<bar> \<le> 1 / 2
      \<and> (frac (p / 100 * of_nat (6 * len)) \<noteq> 1 / 2 \<longrightarrow>
           braille_currentStep p len = \<lfloor>p / 100 * of_nat (6 * len) + 1 / 2\<rfloor>)"
    if w: "of_int \<lfloor>p\<rfloor> = p" "6 * len \<le> 2 ^ 44"
  proof -
    define n where "n = \<lfloor>p\<rfloor>"
    have pn: "p = of_int n" unfolding n_def by (rule w(1)[symmetric])
    have n: "0 \<le> n" "n \<le> 100" using assms(3) p100 by (simp_all add: n_def floor_le_iff)
    have "\<bar>of_int (Math_round (js_mul (js_div (of_int n) 100) (of_nat (6 * len))))
        - of_int n * of_nat (6 * len) / (100 :: rat)\<bar> \<le> 1 / 2"
      using n w(2) by (rule scaled_round_near)
    then have 1: "\<bar>of_int (braille_currentStep p len) - p / 100 * of_nat (6 * len)\<bar> \<le> 1 / 2"
      unfolding braille_currentStep_def T pn by simp
    from nearest_not_tie[OF 1] 1 show ?thesis by blast
  qed
  define c where "c = braille_currentStep p len"
  have c: "0 \<le> c" "c \<le> 6 * int len" using a(1,2) by (simp_all add: c_def)
  have f: "c div 6 \<le> int len" using c by linarith
  have e: "0 \<le> int len - c div 6 - (if 0 < c mod 6 then 1 else 0)"
  proof (cases "0 < c mod 6")
    case True
    have "c = 6 * (c div 6) + c mod 6" by simp
    with True c(2) have "6 * (c div 6) < 6 * int len" by linarith
    then have "c div 6 < int len" by simp
    with True show ?thesis by simp
  next
    case False
    with f show ?thesis by simp
  qed
  have blocks: "braille_fullBlocks p len = braille_currentStep p len div 6
     \<and> braille_partialIndex p len = braille_currentStep p len mod 6
     \<and> braille_fullBlocks p len \<le> int len
     \<and> 0 \<le> braille_emptyBlocks p len
     \<and> braille_fullBlocks p len + braille_emptyBlocks p len
         + (if 0 < braille_partialIndex p len then 1 else 0) = int len"
    using f e by (simp add: a(3,4) braille_emptyBlocks_def c_def)
  show ?thesis using mono z h near whole blocks by blast
qed

theorem braille_steps_witness:
  "braille_currentStep 50 5 \<le> braille_currentStep 100 5
   \<and> braille_currentStep 0 5 = 0
   \<and> braille_currentStep 50 5 = 15 \<and> braille_currentStep 100 5 = 30
   \<and> braille_fullBlocks 50 5 = 2 \<and> braille_partialIndex 50 5 = 3
   \<and> braille_emptyBlocks 50 5 = 2"
proof -
  have a: "(1::nat) \<le> 5" "6 * (5::nat) < 2 ^ 53" "(0::rat) \<le> 50" "(50::rat) \<le> 100"
    "(100::rat) \<le> 100" by simp_all
  note w = braille_steps[OF a]
  have i: "of_int \<lfloor>50 :: rat\<rfloor> = (50 :: rat) \<and> 6 * (5::nat) \<le> 2 ^ 44" by simp
  have x: "(50 :: rat) / 100 * of_nat (6 * 5) = 15" by simp
  have t: "frac (50 / 100 * of_nat (6 * 5) :: rat) \<noteq> 1 / 2"
    unfolding x frac_def by simp
  have "braille_currentStep 50 5 = \<lfloor>(50 :: rat) / 100 * of_nat (6 * 5) + 1 / 2\<rfloor>"
    using w i t by blast
  also have "\<dots> = 15" unfolding x by (simp add: floor_eq_iff)
  finally have c: "braille_currentStep 50 5 = 15" .
  have d: "braille_currentStep 100 5 = 30" using w by simp
  have v: "braille_fullBlocks 50 5 = 2" "braille_partialIndex 50 5 = 3"
    "braille_emptyBlocks 50 5 = 2"
    using w by (simp_all add: c braille_emptyBlocks_def)
  show ?thesis using w c d v by blast
qed

text \<open>
  The claim as the specification states it, \<open>currentStep\<close> equal to
  \<open>round (percentage / 100 * (length * 6))\<close>, fails at an exact half: for 35 percent
  and 15 blocks the product is 31.5, which rounds to 32, and \<open>currentStep\<close> is 31, since
  \<open>35 / 100\<close> is not a double and \<open>(35 / 100) * 90\<close> comes out below 31.5.
\<close>

theorem braille_currentStep_tie_counterexample:
  "braille_currentStep 35 15 = 31
   \<and> (35 :: rat) / 100 * (15 * (7 - 1)) = 63 / 2
   \<and> \<lfloor>(35 :: rat) / 100 * (15 * (7 - 1)) + 1 / 2\<rfloor> = 32
   \<and> braille_fullBlocks 35 15 = 5 \<and> braille_partialIndex 35 15 = 1"
proof -
  have T: "braille_totalSteps 15 = 90" using braille_totalSteps_eq[of 15] by simp
  have c: "braille_currentStep 35 15 = 31"
    unfolding braille_currentStep_def T by (rule round_35_of_90)
  have a: "6 * (15::nat) < 2 ^ 53" "(0::rat) \<le> 35" "(35::rat) \<le> 100" by simp_all
  note b = braille_arith[OF a]
  have f: "braille_fullBlocks 35 15 = 5" "braille_partialIndex 35 15 = 1"
    using b(3,4) by (simp_all add: c)
  have r: "\<lfloor>(35 :: rat) / 100 * (15 * (7 - 1)) + 1 / 2\<rfloor> = 32" by (simp add: floor_eq_iff)
  show ?thesis using c f r by simp
qed

subsection \<open>Progress bars: the glyphs\<close>

lemma is_sgrD:
  assumes "is_sgr code"
  shows "\<exists>ds. js code = 91 # ds @ [109] \<and> list_all (\<lambda>c. is_digit c \<or> c = 59) ds"
proof -
  from assms obtain r where r: "js code = 91 # r" "r \<noteq> []" "last r = 109"
    "list_all (\<lambda>c. is_digit c \<or> c = 59) (butlast r)"
    by (auto simp: is_sgr_def split: list.splits)
  have "r = butlast r @ [109]" using r(2,3) by (metis append_butlast_last_id)
  with r(1,4) show ?thesis by metis
qed

lemma sgr_codes:
  "is_sgr ''[90m''" "is_sgr ''[93m''" "is_sgr ''[38;5;208m''" "is_sgr ''[91m''" "is_sgr ''[92m''"
  "is_sgr ''[38;2;222;115;86m''" "is_sgr ''[30m''" "is_sgr ''[37m''" "is_sgr ''[40m''"
  "is_sgr ''[100m''" "is_sgr ''[47m''" "is_sgr ''[44m''" "is_sgr ''[45m''" "is_sgr ''[46m''"
  "is_sgr ''[48;2;222;115;86m''" "is_sgr ''[0m''"
  by (simp_all add: is_sgr_def js_def is_digit_def)

lemma rests_star_atom:
  assumes "list_all p ds" "r = [] \<or> \<not> p (hd r)"
  shows "\<exists>L. rests (Star (Atom p)) (ds @ r) = r # L \<and> (\<forall>t\<in>set L. t \<noteq> [] \<and> p (hd t))"
  using assms(1)
proof (induction ds)
  case Nil
  have "rests (Atom p) r = []" using assms(2) by (cases r) auto
  then show ?case by (simp add: rests_Star star_step_Nil)
next
  case (Cons d ds)
  then obtain L where L: "rests (Star (Atom p)) (ds @ r) = r # L"
    "\<forall>t\<in>set L. t \<noteq> [] \<and> p (hd t)" by auto
  have "rests (Atom p) (d # ds @ r) = [ds @ r]" using Cons.prems by simp
  then have "rests (Star (Atom p)) (d # ds @ r) = r # (L @ [d # ds @ r])"
    by (simp add: rests_Star[of _ "d # ds @ r"] star_step_Nil star_step_Cons L(1))
  then have "rests (Star (Atom p)) ((d # ds) @ r) = r # (L @ [(d # ds) @ r])" by simp
  moreover have "\<forall>t\<in>set (L @ [(d # ds) @ r]). t \<noteq> [] \<and> p (hd t)"
    using L(2) Cons.prems by simp
  ultimately show ?case by blast
qed

lemma concat_map_empty: "(\<forall>t\<in>set L. f t = []) \<Longrightarrow> concat (map f L) = []"
  by (induction L) auto

lemma rests_ansi:
  assumes "list_all (\<lambda>c. is_digit c \<or> c = 59) ds"
  shows "rests rx_ansi (27 # 91 # ds @ 109 # rest) = [rest]"
proof -
  let ?p = "\<lambda>c. is_digit c \<or> c = 59"
  have "\<not> ?p 109" by (simp add: is_digit_def)
  then obtain L where L: "rests (Star (Atom ?p)) (ds @ 109 # rest) = (109 # rest) # L"
    "\<forall>t\<in>set L. t \<noteq> [] \<and> ?p (hd t)"
    using rests_star_atom[OF assms, of "109 # rest"] by auto
  have "\<forall>t\<in>set L. rests (Chr 109) t = []"
  proof
    fix t assume "t \<in> set L"
    with L(2) obtain c u where "t = c # u" "?p c" by (cases t) auto
    then show "rests (Chr 109) t = []" by (auto simp: Chr_def is_digit_def)
  qed
  then have "concat (map (rests (Chr 109)) L) = []" by (rule concat_map_empty)
  then show ?thesis by (simp add: rx_ansi_def Chr_def L(1))
qed

lemma strip_escape:
  assumes "list_all (\<lambda>c. is_digit c \<or> c = 59) ds"
  shows "stripAnsiCodes (27 # 91 # ds @ 109 # rest) = stripAnsiCodes rest"
  unfolding stripAnsiCodes_def
  by (subst replace_all.simps) (simp add: rests_ansi[OF assms])

lemma strip_plain: "c \<noteq> 27 \<Longrightarrow> stripAnsiCodes (c # rest) = c # stripAnsiCodes rest"
  unfolding stripAnsiCodes_def
  by (subst replace_all.simps) (simp add: rx_ansi_def Chr_def)

lemma strip_Nil: "stripAnsiCodes [] = []"
  unfolding stripAnsiCodes_def
  by (subst replace_all.simps) (simp add: rx_ansi_def Chr_def)

lemma strip_replicate:
  "g \<noteq> 27 \<Longrightarrow> stripAnsiCodes (replicate n g @ rest) = replicate n g @ stripAnsiCodes rest"
  by (induction n) (simp_all add: strip_plain)

lemma strip_color:
  assumes "is_sgr code"
  shows "stripAnsiCodes (color code text @ rest) = stripAnsiCodes (text @ ANSI_reset @ rest)"
proof -
  obtain ds where ds: "js code = 91 # ds @ [109]" "list_all (\<lambda>c. is_digit c \<or> c = 59) ds"
    using is_sgrD[OF assms] by blast
  have "color code text @ rest = 27 # 91 # ds @ 109 # (text @ ANSI_reset @ rest)"
    by (simp add: color_def ds(1))
  then show ?thesis by (simp only: strip_escape[OF ds(2)])
qed

lemma strip_reset: "stripAnsiCodes (ANSI_reset @ rest) = stripAnsiCodes rest"
proof -
  have "ANSI_reset @ rest = 27 # 91 # [48] @ 109 # rest" by (simp add: ANSI_reset_def js_def)
  moreover have "list_all (\<lambda>c. is_digit c \<or> c = 59) [48]" by (simp add: is_digit_def)
  ultimately show ?thesis by (simp only: strip_escape)
qed

lemma strip_paint:
  assumes "is_sgr code" "b = None \<or> (\<exists>bcode. is_sgr bcode \<and> b = Some (color bcode))" "g \<noteq> 27"
  shows "stripAnsiCodes (paint (color code) b (replicate n g) @ rest) =
     replicate n g @ stripAnsiCodes rest"
proof -
  have c: "stripAnsiCodes (color code (replicate n g) @ r) = replicate n g @ stripAnsiCodes r" for r
    by (simp add: strip_color[OF assms(1)] strip_replicate[OF assms(3)] strip_reset)
  from assms(2) show ?thesis
  proof
    assume "b = None"
    then show ?thesis by (simp add: paint_def c)
  next
    assume "\<exists>bcode. is_sgr bcode \<and> b = Some (color bcode)"
    then obtain bcode where b: "is_sgr bcode" "b = Some (color bcode)" by blast
    have "paint (color code) b (replicate n g) @ rest =
        color bcode (color code (replicate n g)) @ rest" by (simp add: paint_def b(2))
    also have "stripAnsiCodes \<dots> = stripAnsiCodes (color code (replicate n g) @ ANSI_reset @ rest)"
      by (rule strip_color[OF b(1)])
    also have "\<dots> = replicate n g @ stripAnsiCodes (ANSI_reset @ rest)" by (rule c)
    finally show ?thesis by (simp add: strip_reset)
  qed
qed

lemma color_sgr: "\<exists>code. is_sgr code \<and> getProgressBarColor p cm = color code"
  unfolding getProgressBarColor_def using sgr_codes by (auto split: if_splits)

lemma background_sgr:
  "getProgressBarBackground bg = None \<or>
   (\<exists>bcode. is_sgr bcode \<and> getProgressBarBackground bg = Some (color bcode))"
  unfolding getProgressBarBackground_def using sgr_codes by (auto split: if_splits)

lemma strip_bar_paint:
  assumes "g \<noteq> 27"
  shows "stripAnsiCodes (paint (getProgressBarColor p cm) (getProgressBarBackground bg)
           (replicate n g) @ rest) = replicate n g @ stripAnsiCodes rest"
proof -
  obtain code where c: "is_sgr code" "getProgressBarColor p cm = color code"
    using color_sgr by blast
  show ?thesis unfolding c(2) using c(1) background_sgr[of bg] assms by (rule strip_paint)
qed

lemma concat_replicate_single: "concat (replicate n [g]) = replicate n g"
  by (induction n) simp_all

lemma repeat_glyph: "repeat [g] (int n) = Inr (replicate n g)"
  by (simp add: repeat_def concat_replicate_single)

lemma repeat_zero: "repeat [g] 0 = Inr []"
  by (simp add: repeat_def)

lemma bar_filled_0: "bar_filled 0 len = 0"
  by (simp add: bar_filled_def scaled_round_zero)

lemma bar_filled_100: "len < 2 ^ 53 \<Longrightarrow> bar_filled 100 len = int len"
  by (simp add: bar_filled_def scaled_round_full)

lemma strip_two_parts:
  assumes "f \<noteq> 27" "e \<noteq> 27"
  shows "stripAnsiCodes
     (paint (getProgressBarColor p cm) (getProgressBarBackground bg) (replicate m f) @
      paint (getProgressBarColor p cm) (getProgressBarBackground bg) (replicate n e)) =
     replicate m f @ replicate n e"
proof -
  have "stripAnsiCodes
     (paint (getProgressBarColor p cm) (getProgressBarBackground bg) (replicate n e) @ []) =
     replicate n e @ stripAnsiCodes []"
    using assms(2) by (rule strip_bar_paint)
  then show ?thesis using assms(1) by (simp add: strip_bar_paint strip_Nil)
qed

lemma two_glyph_bar_0:
  assumes "f \<noteq> 27" "e \<noteq> 27"
  shows "map_sum id stripAnsiCodes (two_glyph_bar f e 0 len cm bg) = Inr (replicate len e)"
  using strip_two_parts[OF assms, of 0 cm bg 0 len]
  by (simp add: two_glyph_bar_def bar_filled_0 repeat_zero repeat_glyph Let_def)

lemma two_glyph_bar_100:
  assumes "f \<noteq> 27" "e \<noteq> 27" "len < 2 ^ 53"
  shows "map_sum id stripAnsiCodes (two_glyph_bar f e 100 len cm bg) = Inr (replicate len f)"
  using strip_two_parts[OF assms(1,2), of 100 cm bg len 0]
  by (simp add: two_glyph_bar_def bar_filled_100[OF assms(3)] repeat_zero repeat_glyph Let_def)

lemma braille_0:
  assumes "1 \<le> len" "6 * len < 2 ^ 53"
  shows "map_sum id stripAnsiCodes (formatProgressBarBraille 0 len cm bg) =
     Inr (replicate len 10432)"
proof -
  have z: "(0::rat) \<le> 0" "(0::rat) \<le> 100" by simp_all
  note a = braille_arith[OF assms(2) z]
  have c: "braille_currentStep 0 len = 0"
    by (simp add: braille_currentStep_def scaled_round_zero)
  have v: "braille_fullBlocks 0 len = 0" "braille_partialIndex 0 len = 0"
    "braille_emptyBlocks 0 len = int len"
    using a by (simp_all add: c braille_emptyBlocks_def)
  have s: "stripAnsiCodes
     (paint (getProgressBarColor 0 cm) (getProgressBarBackground bg) (replicate 0 10495) @
      paint (getProgressBarColor 0 cm) (getProgressBarBackground bg) (replicate len 10432)) =
     replicate 0 10495 @ replicate len 10432"
    by (rule strip_two_parts) simp_all
  show ?thesis
    using assms(1) s by (simp add: formatProgressBarBraille_def v repeat_zero repeat_glyph Let_def)
qed

lemma braille_100:
  assumes "1 \<le> len" "6 * len < 2 ^ 53"
  shows "map_sum id stripAnsiCodes (formatProgressBarBraille 100 len cm bg) =
     Inr (replicate len 10495)"
proof -
  have z: "(0::rat) \<le> 100" "(100::rat) \<le> 100" by simp_all
  note a = braille_arith[OF assms(2) z]
  have T: "braille_totalSteps len = of_nat (6 * len)" using assms(2) by (rule braille_totalSteps_eq)
  have c: "braille_currentStep 100 len = int (6 * len)"
    unfolding braille_currentStep_def T using assms(2) by (rule scaled_round_full)
  have v: "braille_fullBlocks 100 len = int len" "braille_partialIndex 100 len = 0"
    "braille_emptyBlocks 100 len = 0"
    using a by (simp_all add: c braille_emptyBlocks_def)
  have s: "stripAnsiCodes
     (paint (getProgressBarColor 100 cm) (getProgressBarBackground bg) (replicate len 10495) @
      paint (getProgressBarColor 100 cm) (getProgressBarBackground bg) (replicate 0 10432)) =
     replicate len 10495 @ replicate 0 10432"
    by (rule strip_two_parts) simp_all
  have s': "stripAnsiCodes
     (paint (getProgressBarColor 100 cm) (getProgressBarBackground bg) (replicate len 10495)) =
     replicate len 10495"
    using strip_bar_paint[of 10495 100 cm bg len "[]"] by (simp add: strip_Nil)
  show ?thesis
    using s' by (simp add: formatProgressBarBraille_def v repeat_zero repeat_glyph Let_def)
qed

text \<open>
  Claim C6. For every bar length \<open>len \<ge> 1\<close> (with \<open>6 * len\<close> below \<open>2 ^ 53\<close>), every
  colour mode and every background, and each of the three styles: at percentage 0 the
  bar, without its colour sequences, is \<open>len\<close> empty glyphs and nothing else, and at
  percentage 100 it is \<open>len\<close> full glyphs and nothing else.
\<close>

theorem bars_at_0_and_100:
  assumes "1 \<le> len" "6 * len < 2 ^ 53"
  shows "map_sum id stripAnsiCodes (formatProgressBar 0 len (js ''filled'') cm bg) = Inr (replicate len 9617)
   \<and> map_sum id stripAnsiCodes (formatProgressBar 100 len (js ''filled'') cm bg) = Inr (replicate len 9608)
   \<and> map_sum id stripAnsiCodes (formatProgressBar 0 len (js ''rectangle'') cm bg) = Inr (replicate len 9649)
   \<and> map_sum id stripAnsiCodes (formatProgressBar 100 len (js ''rectangle'') cm bg) = Inr (replicate len 9648)
   \<and> map_sum id stripAnsiCodes (formatProgressBar 0 len (js ''braille'') cm bg) = Inr (replicate len 10432)
   \<and> map_sum id stripAnsiCodes (formatProgressBar 100 len (js ''braille'') cm bg) = Inr (replicate len 10495)"
proof -
  have l: "len < 2 ^ 53" using assms(2) by simp
  have st: "js ''filled'' \<noteq> js ''rectangle''" "js ''filled'' \<noteq> js ''braille''"
    "js ''braille'' \<noteq> js ''rectangle''" by (simp_all add: js_def)
  show ?thesis
    using braille_0[OF assms] braille_100[OF assms]
    by (simp add: formatProgressBar_def st formatProgressBarFilled_def
        formatProgressBarRectangle_def two_glyph_bar_0 two_glyph_bar_100[OF _ _ l])
qed

theorem bars_at_0_and_100_witness:
  "map_sum id stripAnsiCodes
     (formatProgressBar 0 10 (js ''filled'') (js ''progressive'') (js ''none'')) =
     Inr (replicate 10 9617)
   \<and> map_sum id stripAnsiCodes
     (formatProgressBar 100 10 (js ''filled'') (js ''progressive'') (js ''none'')) =
     Inr (replicate 10 9608)
   \<and> map_sum id stripAnsiCodes
     (formatProgressBar 0 10 (js ''rectangle'') (js ''green'') (js ''dark'')) =
     Inr (replicate 10 9649)
   \<and> map_sum id stripAnsiCodes
     (formatProgressBar 100 10 (js ''rectangle'') (js ''green'') (js ''dark'')) =
     Inr (replicate 10 9648)
   \<and> map_sum id stripAnsiCodes
     (formatProgressBar 0 10 (js ''braille'') (js ''peach'') (js ''peach'')) =
     Inr (replicate 10 10432)
   \<and> map_sum id stripAnsiCodes
     (formatProgressBar 100 10 (js ''braille'') (js ''peach'') (js ''peach'')) =
     Inr (replicate 10 10495)"
proof -
  have a: "(1::nat) \<le> 10" "6 * (10::nat) < 2 ^ 53" by simp_all
  show ?thesis
    using bars_at_0_and_100[OF a, of "js ''progressive''" "js ''none''"]
      bars_at_0_and_100[OF a, of "js ''green''" "js ''dark''"]
      bars_at_0_and_100[OF a, of "js ''peach''" "js ''peach''"]
    by blast
qed

subsection \<open>The matcher and the language\<close>

lemma set_rests_Star:
  "set (rests (Star a) s) =
     (\<Union>t\<in>set (rests a s). if length t < length s then set (rests (Star a) t) else {}) \<union> {s}"
  by (subst rests.simps(4)) auto

lemma rests_star_sound:
  assumes a: "\<And>s t. t \<in> set (rests a s) \<Longrightarrow> \<exists>w. w \<in> lang a \<and> s = w @ t"
  shows "t \<in> set (rests (Star a) s) \<Longrightarrow> \<exists>w. w \<in> star (lang a) \<and> s = w @ t"
proof (induction "length s" arbitrary: s rule: less_induct)
  case less
  from less.prems consider "t = s"
    | t' where "t' \<in> set (rests a s)" "length t' < length s" "t \<in> set (rests (Star a) t')"
    by (subst (asm) set_rests_Star) (auto split: if_splits)
  then show ?case
  proof cases
    case 1
    then show ?thesis using star.Nil[of "lang a"] by auto
  next
    case 2
    obtain u where u: "u \<in> lang a" "s = u @ t'" using a[OF 2(1)] by blast
    obtain w where w: "w \<in> star (lang a)" "t' = w @ t" using less.hyps[OF 2(2) 2(3)] by blast
    have "u @ w \<in> star (lang a)" using u(1) w(1) by (rule star.step)
    moreover have "s = (u @ w) @ t" using u(2) w(2) by simp
    ultimately show ?thesis by blast
  qed
qed

lemma rests_star_complete:
  assumes a: "\<And>w t. w \<in> lang a \<Longrightarrow> t \<in> set (rests a (w @ t))"
  shows "w \<in> star (lang a) \<Longrightarrow> t \<in> set (rests (Star a) (w @ t))"
proof (induction w rule: star.induct)
  case Nil
  show ?case by (subst set_rests_Star) simp
next
  case (step u v)
  show ?case
  proof (cases "u = []")
    case True
    then show ?thesis using step.IH by simp
  next
    case False
    have 1: "v @ t \<in> set (rests a (u @ v @ t))" using a[OF step.hyps(1)] .
    have 2: "length (v @ t) < length (u @ v @ t)" using False by simp
    show ?thesis
      by (subst set_rests_Star) (use 1 2 step.IH in force)
  qed
qed

text \<open>The matcher is sound and complete for the language.\<close>

lemma rests_lang: "set (rests r s) = {t. \<exists>w. w \<in> lang r \<and> s = w @ t}"
proof (induction r arbitrary: s)
  case (Atom p)
  show ?case by (cases s) auto
next
  case (Seq a b)
  show ?case
  proof (rule set_eqI, rule iffI)
    fix t assume "t \<in> set (rests (Seq a b) s)"
    then obtain t' where t': "t' \<in> set (rests a s)" "t \<in> set (rests b t')" by auto
    then obtain u v where "u \<in> lang a" "s = u @ t'" "v \<in> lang b" "t' = v @ t"
      using Seq.IH by blast
    then have "u @ v \<in> lang (Seq a b)" "s = (u @ v) @ t" by auto
    then show "t \<in> {t. \<exists>w. w \<in> lang (Seq a b) \<and> s = w @ t}" by blast
  next
    fix t assume "t \<in> {t. \<exists>w. w \<in> lang (Seq a b) \<and> s = w @ t}"
    then obtain u v where uv: "u \<in> lang a" "v \<in> lang b" "s = (u @ v) @ t" by auto
    then have "v @ t \<in> set (rests a s)" "t \<in> set (rests b (v @ t))" using Seq.IH by auto
    then show "t \<in> set (rests (Seq a b) s)" by auto
  qed
next
  case (Star a)
  show ?case
  proof (rule set_eqI, rule iffI)
    fix t assume "t \<in> set (rests (Star a) s)"
    then have "\<exists>w. w \<in> star (lang a) \<and> s = w @ t"
      using Star.IH by (intro rests_star_sound) auto
    then show "t \<in> {t. \<exists>w. w \<in> lang (Star a) \<and> s = w @ t}" by simp
  next
    fix t assume "t \<in> {t. \<exists>w. w \<in> lang (Star a) \<and> s = w @ t}"
    then obtain w where w: "w \<in> star (lang a)" "s = w @ t" by auto
    have "t \<in> set (rests (Star a) (w @ t))"
      using w(1) Star.IH by (intro rests_star_complete) auto
    then show "t \<in> set (rests (Star a) s)" using w(2) by simp
  qed
next
  case (Opt a)
  show ?case using Opt.IH by auto
qed

lemma star_atom: "star (lang (Atom p)) = {w. list_all p w}"
proof (rule set_eqI, rule iffI)
  fix w assume "w \<in> star (lang (Atom p))"
  then show "w \<in> {w. list_all p w}" by (induction rule: star.induct) auto
next
  fix w assume "w \<in> {w. list_all p w}"
  then have "list_all p w" by simp
  then show "w \<in> star (lang (Atom p))"
  proof (induction w)
    case Nil
    show ?case by (rule star.Nil)
  next
    case (Cons c w)
    then have "[c] \<in> lang (Atom p)" "w \<in> star (lang (Atom p))" by auto
    then have "[c] @ w \<in> star (lang (Atom p))" by (rule star.step)
    then show ?case by simp
  qed
qed

lemma lang_Plus_atom: "lang (Plus (Atom p)) = {w. w \<noteq> [] \<and> list_all p w}"
proof -
  have "lang (Plus (Atom p)) = {u @ v | u v. u \<in> lang (Atom p) \<and> v \<in> star (lang (Atom p))}"
    by (simp only: Plus_def lang.simps(2) lang.simps(4))
  also have "\<dots> = {u @ v | u v. u \<in> lang (Atom p) \<and> list_all p v}"
    unfolding star_atom by simp
  also have "\<dots> = {w. w \<noteq> [] \<and> list_all p w}" (is "?A = ?B")
  proof (rule set_eqI, rule iffI)
    fix w assume "w \<in> ?A"
    then obtain c v where "w = [c] @ v" "p c" "list_all p v" by auto
    then show "w \<in> ?B" by simp
  next
    fix w assume "w \<in> ?B"
    then obtain c v where w: "w = c # v" "p c" "list_all p v" by (cases w) auto
    have "[c] \<in> lang (Atom p)" using w(2) by simp
    then have "[c] @ v \<in> ?A" using w(3) by blast
    then show "w \<in> ?A" by (simp add: w(1))
  qed
  finally show ?thesis .
qed

lemma star_snoc: "v \<in> star A \<Longrightarrow> u \<in> A \<Longrightarrow> v @ u \<in> star A"
proof (induction rule: star.induct)
  case Nil
  then show ?case using star.step[OF _ star.Nil, of u A] by simp
next
  case (step x y)
  then show ?case using star.step[of x A "y @ u"] by simp
qed

lemma lang_group:
  "lang (Seq (Chr 44) (Plus (Atom is_digit))) = {44 # g | g. g \<noteq> [] \<and> list_all is_digit g}"
proof -
  have "lang (Seq (Chr 44) (Plus (Atom is_digit))) =
      {u @ v | u v. u \<in> lang (Chr 44) \<and> v \<in> lang (Plus (Atom is_digit))}"
    by (simp only: lang.simps(2))
  then show ?thesis unfolding lang_Plus_atom by (auto simp: Chr_def)
qed

lemma lang_rx_count_raw:
  "lang rx_count = {u @ v | u v. u \<noteq> [] \<and> list_all is_digit u
      \<and> v \<in> star {44 # g | g. g \<noteq> [] \<and> list_all is_digit g}}"
proof -
  have "lang rx_count = {u @ v | u v. u \<in> lang (Plus (Atom is_digit))
      \<and> v \<in> star (lang (Seq (Chr 44) (Plus (Atom is_digit))))}"
    by (simp only: rx_count_def lang.simps(2)[of "Plus (Atom is_digit)"] lang.simps(4))
  then show ?thesis unfolding lang_group lang_Plus_atom by simp
qed

lemma lang_rx_count: "lang rx_count = {n. grouped_digits n}"
proof (rule set_eqI, rule iffI)
  fix w assume "w \<in> lang rx_count"
  then obtain u v where uv: "w = u @ v" "u \<noteq> []" "list_all is_digit u"
    "v \<in> star {44 # g | g. g \<noteq> [] \<and> list_all is_digit g}"
    unfolding lang_rx_count_raw by blast
  have "grouped_digits n \<Longrightarrow> grouped_digits (n @ v)" for n
    using uv(4)
  proof (induction v arbitrary: n rule: star.induct)
    case Nil
    then show ?case by simp
  next
    case (step x y)
    from step.hyps(1) obtain g where g: "x = 44 # g" "g \<noteq> []" "list_all is_digit g" by auto
    have "grouped_digits (n @ 44 # g)" using step.prems g(2,3) by (rule grouped_digits.group)
    then have "grouped_digits ((n @ 44 # g) @ y)" by (rule step.IH)
    then show ?case by (simp add: g(1))
  qed
  moreover have "grouped_digits u" using uv(2,3) by (rule grouped_digits.digits)
  ultimately show "w \<in> {n. grouped_digits n}" by (simp add: uv(1))
next
  fix w assume "w \<in> {n. grouped_digits n}"
  then have "grouped_digits w" by simp
  then have "\<exists>u v. w = u @ v \<and> u \<noteq> [] \<and> list_all is_digit u
      \<and> v \<in> star {44 # g | g. g \<noteq> [] \<and> list_all is_digit g}"
  proof (induction rule: grouped_digits.induct)
    case (digits d)
    then show ?case using star.Nil by (intro exI[of _ d] exI[of _ "[]"]) simp
  next
    case (group n g)
    then obtain u v where uv: "n = u @ v" "u \<noteq> []" "list_all is_digit u"
      "v \<in> star {44 # g | g. g \<noteq> [] \<and> list_all is_digit g}" by blast
    have "44 # g \<in> {44 # g | g. g \<noteq> [] \<and> list_all is_digit g}" using group.hyps by blast
    then have "v @ 44 # g \<in> star {44 # g | g. g \<noteq> [] \<and> list_all is_digit g}"
      using uv(4) by (intro star_snoc)
    then show ?case using uv(1,2,3) by (intro exI[of _ u] exI[of _ "v @ 44 # g"]) simp
  qed
  then show "w \<in> lang rx_count"
    unfolding lang_rx_count_raw by blast
qed

lemma ascii_lower_eq: "97 \<le> k \<Longrightarrow> k \<le> 122 \<Longrightarrow> ascii_lower x = k \<longleftrightarrow> x = k \<or> x + 32 = k"
  by (auto simp: ascii_lower_def)

lemma Chr_i_lower:
  assumes "of_char c = k" "97 \<le> k" "k \<le> 122"
  shows "lang (Chr_i c) = {[x] | x. ascii_lower x = k}"
proof -
  have "lang (Chr_i c) = {[x] | x. x = k \<or> x + 32 = k}"
    unfolding Chr_i_def lang.simps(1) assms(1) ..
  then show ?thesis unfolding ascii_lower_eq[OF assms(2,3)] .
qed

lemma mem_Seq_Chr_i:
  assumes "of_char c = k" "97 \<le> k" "k \<le> 122"
  shows "w \<in> lang (Seq (Chr_i c) r) \<longleftrightarrow>
     w \<noteq> [] \<and> ascii_lower (hd w) = k \<and> tl w \<in> lang r"
proof
  assume "w \<in> lang (Seq (Chr_i c) r)"
  then obtain u v where "w = u @ v" "u \<in> lang (Chr_i c)" "v \<in> lang r"
    unfolding lang.simps(2) by blast
  then show "w \<noteq> [] \<and> ascii_lower (hd w) = k \<and> tl w \<in> lang r"
    unfolding Chr_i_lower[OF assms] by auto
next
  assume a: "w \<noteq> [] \<and> ascii_lower (hd w) = k \<and> tl w \<in> lang r"
  then have "[hd w] \<in> lang (Chr_i c)" unfolding Chr_i_lower[OF assms] by simp
  then have "[hd w] @ tl w \<in> lang (Seq (Chr_i c) r)" using a unfolding lang.simps(2) by blast
  then show "w \<in> lang (Seq (Chr_i c) r)" using a by simp
qed

lemma mem_Opt_Chr_i:
  assumes "of_char c = k" "97 \<le> k" "k \<le> 122"
  shows "w \<in> lang (Opt (Chr_i c)) \<longleftrightarrow>
     w = [] \<or> (w \<noteq> [] \<and> ascii_lower (hd w) = k \<and> tl w = [])"
  unfolding lang.simps(3) Chr_i_lower[OF assms] by (cases w) auto

lemma map_eq_Cons_hd: "map f w = k # ks \<longleftrightarrow> w \<noteq> [] \<and> f (hd w) = k \<and> map f (tl w) = ks"
  by (cases w) auto

lemma tok_mem:
  "w \<in> lang (Seq (Chr_i CHR ''t'') r) \<longleftrightarrow> w \<noteq> [] \<and> ascii_lower (hd w) = 116 \<and> tl w \<in> lang r"
  "w \<in> lang (Seq (Chr_i CHR ''o'') r) \<longleftrightarrow> w \<noteq> [] \<and> ascii_lower (hd w) = 111 \<and> tl w \<in> lang r"
  "w \<in> lang (Seq (Chr_i CHR ''k'') r) \<longleftrightarrow> w \<noteq> [] \<and> ascii_lower (hd w) = 107 \<and> tl w \<in> lang r"
  "w \<in> lang (Seq (Chr_i CHR ''e'') r) \<longleftrightarrow> w \<noteq> [] \<and> ascii_lower (hd w) = 101 \<and> tl w \<in> lang r"
  "w \<in> lang (Seq (Chr_i CHR ''n'') r) \<longleftrightarrow> w \<noteq> [] \<and> ascii_lower (hd w) = 110 \<and> tl w \<in> lang r"
  "w \<in> lang (Opt (Chr_i CHR ''s'')) \<longleftrightarrow>
     w = [] \<or> (w \<noteq> [] \<and> ascii_lower (hd w) = 115 \<and> tl w = [])"
  by (rule mem_Seq_Chr_i mem_Opt_Chr_i; simp)+

lemma lang_token_word:
  "w \<in> lang (Seq (Chr_i CHR ''t'') (Seq (Chr_i CHR ''o'') (Seq (Chr_i CHR ''k'')
         (Seq (Chr_i CHR ''e'') (Seq (Chr_i CHR ''n'') (Opt (Chr_i CHR ''s'')))))))
     \<longleftrightarrow> is_token_word w"
proof -
  have t: "js ''token'' = [116, 111, 107, 101, 110]" "js ''tokens'' = [116, 111, 107, 101, 110, 115]"
    by (simp_all add: js_def)
  show ?thesis
    unfolding is_token_word_def t tok_mem map_eq_Cons_hd by auto
qed

lemma lang_rx_tokens:
  "lang rx_tokens = {sp @ w | sp w. list_all is_ws sp \<and> is_token_word w}"
proof -
  have "lang rx_tokens = {sp @ w | sp w. sp \<in> star (lang (Atom is_ws))
      \<and> w \<in> lang (Seq (Chr_i CHR ''t'') (Seq (Chr_i CHR ''o'') (Seq (Chr_i CHR ''k'')
         (Seq (Chr_i CHR ''e'') (Seq (Chr_i CHR ''n'') (Opt (Chr_i CHR ''s'')))))))}"
    by (simp only: rx_tokens_def lang.simps(2)[of "Star (Atom is_ws)"] lang.simps(4))
  then show ?thesis unfolding star_atom lang_token_word by simp
qed

lemma exec_group_None:
  "exec_group g r s = None \<longleftrightarrow> \<not> (\<exists>u v t. s = u @ v @ t \<and> u \<in> lang g \<and> v \<in> lang r)"
proof -
  have "exec_group g r s = None \<longleftrightarrow> filter (\<lambda>t. rests r t \<noteq> []) (rests g s) = []"
    by (simp add: exec_group_def split: list.splits)
  also have "\<dots> \<longleftrightarrow> (\<forall>t\<in>set (rests g s). rests r t = [])"
    by (simp add: filter_empty_conv)
  also have "\<dots> \<longleftrightarrow> (\<forall>t\<in>set (rests g s). set (rests r t) = {})" by simp
  also have "\<dots> \<longleftrightarrow> \<not> (\<exists>u v t. s = u @ v @ t \<and> u \<in> lang g \<and> v \<in> lang r)"
    unfolding rests_lang by blast
  finally show ?thesis .
qed

lemma exec_group_Some:
  assumes "exec_group g r s = Some m"
  shows "\<exists>v t. s = m @ v @ t \<and> m \<in> lang g \<and> v \<in> lang r"
proof -
  from assms obtain t0 ts where f: "filter (\<lambda>t. rests r t \<noteq> []) (rests g s) = t0 # ts"
    and m: "m = take (length s - length t0) s"
    by (auto simp: exec_group_def split: list.splits)
  have "t0 \<in> set (filter (\<lambda>t. rests r t \<noteq> []) (rests g s))" unfolding f by simp
  then have t0: "t0 \<in> set (rests g s)" "rests r t0 \<noteq> []" by auto
  from t0(1) obtain u where u: "u \<in> lang g" "s = u @ t0" unfolding rests_lang by blast
  from t0(2) obtain t where "t \<in> set (rests r t0)" by (cases "rests r t0") auto
  then obtain v where v: "v \<in> lang r" "t0 = v @ t" unfolding rests_lang by blast
  have "m = u" using m u(2) by simp
  then show ?thesis using u v by blast
qed

lemma match_group_skip:
  assumes "\<forall>i<length pre. exec_group g r (drop i (pre @ s)) = None"
  shows "match_group g r (pre @ s) = match_group g r s"
  using assms
proof (induction pre)
  case Nil
  show ?case by simp
next
  case (Cons c pre)
  have 0: "exec_group g r ((c # pre) @ s) = None" using Cons.prems by (auto dest: spec[of _ 0])
  have "\<forall>i<length pre. exec_group g r (drop i (pre @ s)) = None"
  proof (intro allI impI)
    fix i assume "i < length pre"
    then have "exec_group g r (drop (Suc i) ((c # pre) @ s)) = None"
      using Cons.prems by (auto dest!: spec[of _ "Suc i"])
    then show "exec_group g r (drop i (pre @ s)) = None" by simp
  qed
  then have "match_group g r (pre @ s) = match_group g r s" by (rule Cons.IH)
  then show ?case using 0 by simp
qed

lemma match_group_here: "exec_group g r s = Some m \<Longrightarrow> match_group g r s = Some m"
  by (cases s) simp_all

lemma match_group_None:
  "(\<forall>i\<le>length s. exec_group g r (drop i s) = None) \<Longrightarrow> match_group g r s = None"
proof (induction s)
  case Nil
  then show ?case by simp
next
  case (Cons c s)
  have 0: "exec_group g r (c # s) = None" using Cons.prems by (auto dest: spec[of _ 0])
  have "\<forall>i\<le>length s. exec_group g r (drop i s) = None"
  proof (intro allI impI)
    fix i assume "i \<le> length s"
    then have "exec_group g r (drop (Suc i) (c # s)) = None"
      using Cons.prems by (auto dest!: spec[of _ "Suc i"])
    then show "exec_group g r (drop i s) = None" by simp
  qed
  then have "match_group g r s = None" by (rule Cons.IH)
  then show ?case using 0 by simp
qed

lemma token_count_at_lang:
  "token_count_at s \<longleftrightarrow> (\<exists>u v t. s = u @ v @ t \<and> u \<in> lang rx_count \<and> v \<in> lang rx_tokens)"
proof
  assume "token_count_at s"
  then obtain num sp word post where "s = num @ sp @ word @ post" "grouped_digits num"
    "list_all is_ws sp" "is_token_word word" unfolding token_count_at_def by blast
  then have "s = num @ (sp @ word) @ post" "num \<in> lang rx_count" "sp @ word \<in> lang rx_tokens"
    unfolding lang_rx_count lang_rx_tokens by auto
  then show "\<exists>u v t. s = u @ v @ t \<and> u \<in> lang rx_count \<and> v \<in> lang rx_tokens" by blast
next
  assume "\<exists>u v t. s = u @ v @ t \<and> u \<in> lang rx_count \<and> v \<in> lang rx_tokens"
  then obtain u v t where "s = u @ v @ t" "u \<in> lang rx_count" "v \<in> lang rx_tokens" by blast
  then obtain sp w where "s = u @ sp @ w @ t" "grouped_digits u" "list_all is_ws sp" "is_token_word w"
    unfolding lang_rx_count lang_rx_tokens by auto
  then show "token_count_at s" unfolding token_count_at_def by blast
qed

lemma exec_group_token_None:
  "exec_group rx_count rx_tokens s = None \<longleftrightarrow> \<not> token_count_at s"
  unfolding exec_group_None token_count_at_lang ..

lemma grouped_chars:
  "grouped_digits n \<Longrightarrow> n \<noteq> [] \<and> is_digit (hd n) \<and> (\<forall>c\<in>set n. is_digit c \<or> c = 44)"
proof (induction rule: grouped_digits.induct)
  case (digits d)
  then show ?case by (cases d) (auto simp: list_all_iff)
next
  case (group n g)
  then show ?case by (auto simp: list_all_iff)
qed

lemma ws_not_digit: "is_ws c \<Longrightarrow> \<not> (is_digit c \<or> c = 44)"
  by (auto simp: is_ws_def is_digit_def)

lemma token_word_hd: "is_token_word w \<Longrightarrow> w \<noteq> [] \<and> \<not> (is_digit (hd w) \<or> hd w = 44)"
proof -
  assume "is_token_word w"
  then have "w \<noteq> [] \<and> ascii_lower (hd w) = 116"
    unfolding is_token_word_def js_def by (auto simp: map_eq_Cons_hd)
  then show ?thesis by (auto simp: ascii_lower_def is_digit_def split: if_splits)
qed

lemma tail_hd:
  assumes "list_all is_ws sp" "is_token_word w"
  shows "sp @ w @ post \<noteq> [] \<and> \<not> (is_digit (hd (sp @ w @ post)) \<or> hd (sp @ w @ post) = 44)"
proof (cases sp)
  case Nil
  then show ?thesis using token_word_hd[OF assms(2)] by simp
next
  case (Cons c sp')
  then have "is_ws c" using assms(1) by simp
  then show ?thesis using ws_not_digit[of c] Cons by simp
qed

lemma count_prefix:
  assumes "grouped_digits u'" "u @ x = u' @ x'" "x \<noteq> []" "\<not> (is_digit (hd x) \<or> hd x = 44)"
  shows "length u' \<le> length u"
proof (rule ccontr)
  assume "\<not> length u' \<le> length u"
  then have l: "length u < length u'" by simp
  have "take (length u') (u @ x) = u'" using assms(2) by simp
  then have u': "u' = u @ take (length u' - length u) x" using l by simp
  have "take (length u' - length u) x \<noteq> []" using l assms(3) by simp
  then have "hd x \<in> set (take (length u' - length u) x)"
    using assms(3) by (cases x) (auto simp: take_Cons')
  then have "hd x \<in> set u'" by (subst u') simp
  then show False using grouped_chars[OF assms(1)] assms(4) by blast
qed

lemma count_unique:
  assumes "grouped_digits u" "grouped_digits u'" "u @ x = u' @ x'"
    "x \<noteq> []" "\<not> (is_digit (hd x) \<or> hd x = 44)" "x' \<noteq> []" "\<not> (is_digit (hd x') \<or> hd x' = 44)"
  shows "u = u'"
proof -
  have "length u' \<le> length u" using assms(2,3,4,5) by (rule count_prefix)
  moreover have "length u \<le> length u'" using assms(1) assms(3)[symmetric] assms(6,7) by (rule count_prefix)
  ultimately have "length u = length u'" by simp
  then show ?thesis using assms(3) by simp
qed

lemma parseInt_digits:
  assumes "ds \<noteq> []" "list_all is_digit ds"
  shows "parseInt ds = Some (double_of_int (int (digits_value ds)))"
proof -
  obtain c r where ds: "ds = c # r" using assms(1) by (cases ds) auto
  have c: "is_digit c" using assms(2) ds by simp
  then have nw: "\<not> is_ws c" "c \<noteq> 45" "c \<noteq> 43" by (auto simp: is_ws_def is_digit_def)
  have t: "takeWhile is_digit ds = ds" using assms(2) by (simp add: list_all_iff)
  show ?thesis
    using nw t assms(1) by (simp add: parseInt_def ds Let_def)
qed

lemma without_commas:
  assumes "grouped_digits n"
  shows "filter (\<lambda>c. c \<noteq> 44) n \<noteq> []" "list_all is_digit (filter (\<lambda>c. c \<noteq> 44) n)"
proof -
  note g = grouped_chars[OF assms]
  obtain c r where n: "n = c # r" using g by (cases n) auto
  then have "is_digit c" using g by simp
  then have "c \<noteq> 44" by (simp add: is_digit_def)
  then show "filter (\<lambda>c. c \<noteq> 44) n \<noteq> []" by (simp add: n)
  show "list_all is_digit (filter (\<lambda>c. c \<noteq> 44) n)" using g by (auto simp: list_all_iff)
qed

lemma first_count:
  assumes "s = pre @ num @ sp @ word @ post" "grouped_digits num" "list_all is_ws sp"
    "is_token_word word" "\<forall>i<length pre. \<not> token_count_at (drop i s)"
  shows "match_group rx_count rx_tokens s = Some num"
proof -
  let ?x = "num @ sp @ word @ post"
  have skip: "match_group rx_count rx_tokens (pre @ ?x) = match_group rx_count rx_tokens ?x"
    using assms(5) unfolding assms(1) by (intro match_group_skip) (simp add: exec_group_token_None)
  have "token_count_at ?x" unfolding token_count_at_def using assms(2,3,4) by blast
  then have "exec_group rx_count rx_tokens ?x \<noteq> None" by (simp add: exec_group_token_None)
  then obtain m where m: "exec_group rx_count rx_tokens ?x = Some m" by blast
  then obtain v t where vt: "?x = m @ v @ t" "m \<in> lang rx_count" "v \<in> lang rx_tokens"
    using exec_group_Some by blast
  then obtain sp' w' where v: "v = sp' @ w'" "list_all is_ws sp'" "is_token_word w'"
    unfolding lang_rx_tokens by blast
  have gm: "grouped_digits m" using vt(2) unfolding lang_rx_count by simp
  have eq: "num @ (sp @ word @ post) = m @ (sp' @ w' @ t)" using vt(1) v(1) by simp
  have "num = m"
    using assms(2) gm eq tail_hd[OF assms(3,4), of post] tail_hd[OF v(2,3), of t]
    by (intro count_unique[of num m "sp @ word @ post" "sp' @ w' @ t"]) auto
  then have "match_group rx_count rx_tokens ?x = Some num" using m by (simp add: match_group_here)
  then show ?thesis using skip by (simp add: assms(1))
qed

lemma parseConversationTokens_match:
  assumes "s = pre @ num @ sp @ word @ post" "grouped_digits num" "list_all is_ws sp"
    "is_token_word word" "\<forall>i<length pre. \<not> token_count_at (drop i s)"
  shows "parseConversationTokens s =
     Some (double_of_int (int (digits_value (filter (\<lambda>c. c \<noteq> 44) num))))"
proof -
  have ne: "s \<noteq> []" using grouped_chars[OF assms(2)] assms(1) by simp
  have "parseConversationTokens s = parseInt (filter (\<lambda>c. c \<noteq> 44) num)"
    using ne first_count[OF assms] by (simp add: parseConversationTokens_def)
  then show ?thesis using without_commas[OF assms(2)] by (simp add: parseInt_digits)
qed

lemma parseConversationTokens_fallback:
  assumes "s \<noteq> []" "\<forall>i\<le>length s. \<not> token_count_at (drop i s)"
  shows "parseConversationTokens s = Some (estimateTokens s)"
proof -
  have "match_group rx_count rx_tokens s = None"
    using assms(2) by (intro match_group_None) (simp add: exec_group_token_None)
  then show ?thesis using assms(1) by (simp add: parseConversationTokens_def)
qed

subsection \<open>Estimating tokens\<close>

lemma rests_spaces_ws:
  assumes "is_ws c"
  shows "\<exists>L. rests rx_spaces (c # cs) = dropWhile is_ws cs # L"
proof -
  have 1: "list_all is_ws (takeWhile is_ws cs)" by (simp add: list_all_iff) (meson set_takeWhileD)
  have 2: "dropWhile is_ws cs = [] \<or> \<not> is_ws (hd (dropWhile is_ws cs))"
    using hd_dropWhile[of is_ws cs] by blast
  obtain L where "rests (Star (Atom is_ws)) (takeWhile is_ws cs @ dropWhile is_ws cs) =
      dropWhile is_ws cs # L"
    using rests_star_atom[OF 1 2] by blast
  then have "rests (Star (Atom is_ws)) cs = dropWhile is_ws cs # L" by simp
  then show ?thesis using assms by (simp add: rx_spaces_def Plus_def)
qed

lemma rests_spaces_other: "\<not> is_ws c \<Longrightarrow> rests rx_spaces (c # cs) = []"
  by (simp add: rx_spaces_def Plus_def)

lemma replace_spaces: "replace_all rx_spaces [32] s = collapse_whitespace s"
proof (induction s rule: collapse_whitespace.induct)
  case 1
  show ?case by (subst replace_all.simps) (simp add: rx_spaces_def Plus_def)
next
  case (2 c cs)
  show ?case
  proof (cases "is_ws c")
    case True
    obtain L where L: "rests rx_spaces (c # cs) = dropWhile is_ws cs # L"
      using rests_spaces_ws[OF True] by blast
    have "length (dropWhile is_ws cs) < length (c # cs)"
      using length_dropWhile_le[of is_ws cs] by simp
    then have "replace_all rx_spaces [32] (c # cs) =
        [32] @ replace_all rx_spaces [32] (dropWhile is_ws cs)"
      by (subst replace_all.simps) (simp add: L)
    then show ?thesis using True 2(1) by simp
  next
    case False
    have "replace_all rx_spaces [32] (c # cs) = c # replace_all rx_spaces [32] cs"
      by (subst replace_all.simps) (simp add: rests_spaces_other[OF False])
    then show ?thesis using False 2(2) by simp
  qed
qed

lemma length_collapse: "length (collapse_whitespace s) \<le> length s"
proof (induction s rule: collapse_whitespace.induct)
  case 1
  show ?case by simp
next
  case (2 c cs)
  show ?case
  proof (cases "is_ws c")
    case True
    then show ?thesis using 2(1) length_dropWhile_le[of is_ws cs] by simp
  next
    case False
    then show ?thesis using 2(2) by simp
  qed
qed

lemma length_trim: "length (trim s) \<le> length s"
proof -
  have "length (trim s) = length (dropWhile is_ws (rev (dropWhile is_ws s)))"
    by (simp add: trim_def)
  also have "\<dots> \<le> length (rev (dropWhile is_ws s))" by (rule length_dropWhile_le)
  also have "\<dots> = length (dropWhile is_ws s)" by simp
  also have "\<dots> \<le> length s" by (rule length_dropWhile_le)
  finally show ?thesis .
qed

lemma ceil_quarter:
  assumes "n < 2 ^ 53"
  shows "Math_ceil (js_div (of_nat n) 4) = \<lceil>(of_nat n :: rat) / 4\<rceil>"
proof -
  have e: "of_int (int n) * 2 powi (- 2) = (of_nat n :: rat) / 4" by (simp add: power_int_minus)
  have "fl (of_int (int n) * 2 powi (- 2)) = of_int (int n) * 2 powi (- 2)"
    using assms by (intro fl_dyadic) simp
  then have "fl (of_nat n / 4) = (of_nat n :: rat) / 4" unfolding e .
  then show ?thesis by (simp only: Math_ceil_def js_div_def)
qed

lemma estimateTokens_eq:
  assumes "length s < 2 ^ 53"
  shows "estimateTokens s = \<lceil>(of_nat (length (trim (collapse_whitespace s))) :: rat) / 4\<rceil>"
proof (cases "s = []")
  case True
  then show ?thesis by (simp add: estimateTokens_def trim_def)
next
  case False
  have "length (trim (collapse_whitespace s)) \<le> length s"
    using length_trim[of "collapse_whitespace s"] length_collapse[of s] by linarith
  then have "length (trim (collapse_whitespace s)) < 2 ^ 53" using assms by linarith
  then show ?thesis using False by (simp add: estimateTokens_def replace_spaces ceil_quarter)
qed

lemma collapse_all_ws: "s \<noteq> [] \<Longrightarrow> list_all is_ws s \<Longrightarrow> collapse_whitespace s = [32]"
proof -
  assume a: "s \<noteq> []" "list_all is_ws s"
  then obtain c cs where s: "s = c # cs" by (cases s) auto
  have c: "is_ws c" using a(2) s by simp
  have d: "dropWhile is_ws cs = []" using a(2) s by (simp add: list_all_iff)
  show ?thesis unfolding s collapse_whitespace.simps d using c by simp
qed

lemma estimateTokens_ws: "list_all is_ws s \<Longrightarrow> estimateTokens s = 0"
proof (cases "s = []")
  case True
  then show ?thesis by (simp add: estimateTokens_def)
next
  case False
  assume "list_all is_ws s"
  then have "collapse_whitespace s = [32]" using False by (intro collapse_all_ws)
  then have "trim (replace_all rx_spaces [32] s) = []"
    by (simp add: replace_spaces trim_def is_ws_def)
  then show ?thesis using False by (simp add: estimateTokens_def Math_ceil_def js_div_def fl_def)
qed

lemma estimateTokens_nonneg: "0 \<le> estimateTokens s"
proof (cases "s = []")
  case True
  then show ?thesis by (simp add: estimateTokens_def)
next
  case False
  have "0 \<le> fl (of_nat (length (trim (replace_all rx_spaces [32] s))) / 4)"
    by (rule fl_nonneg) simp
  then show ?thesis using False
    by (simp add: estimateTokens_def Math_ceil_def js_div_def Let_def)
qed


text \<open>
  Claim C7. For every input string \<open>s\<close> (a JavaScript string has fewer than \<open>2 ^ 53\<close>
  code units), \<open>estimateTokens s\<close> is the length of the trimmed, collapsed string divided
  by 4 and rounded up, where \<open>collapse_whitespace\<close> replaces every run of white space by
  one space; the empty string and every string of white space only give 0.
\<close>

theorem estimateTokens_spec:
  "(length s < 2 ^ 53 \<longrightarrow>
      estimateTokens s = \<lceil>(of_nat (length (trim (collapse_whitespace s))) :: rat) / 4\<rceil>)
   \<and> estimateTokens [] = 0
   \<and> (list_all is_ws s \<longrightarrow> estimateTokens s = 0)"
  using estimateTokens_eq[of s] estimateTokens_ws[of s] by (simp add: estimateTokens_def)

theorem estimateTokens_spec_witness:
  "estimateTokens (js ''hello world this is a test'') = 7
   \<and> estimateTokens (js ''  two   words '') = 3
   \<and> estimateTokens (js ''   '') = 0"
proof -
  have l: "length (js ''hello world this is a test'') < 2 ^ 53"
    "length (js ''  two   words '') < 2 ^ 53" by (simp_all add: js_def)
  have w: "list_all is_ws (js ''   '')" by (simp add: js_def is_ws_def)
  have c1: "trim (collapse_whitespace (js ''hello world this is a test'')) =
      js ''hello world this is a test''"
    by (simp add: js_def is_ws_def trim_def)
  have c2: "trim (collapse_whitespace (js ''  two   words '')) = js ''two words''"
    by (simp add: js_def is_ws_def trim_def)
  have v: "\<lceil>(26::rat) / 4\<rceil> = 7" "\<lceil>(9::rat) / 4\<rceil> = 3" by (simp_all add: ceiling_eq_iff)
  show ?thesis
    using estimateTokens_spec[of "js ''hello world this is a test''"]
      estimateTokens_spec[of "js ''  two   words ''"] estimateTokens_spec[of "js ''   ''"]
      l w v
    unfolding c1 c2 by (simp add: js_def)
qed

subsection \<open>Token usage\<close>

lemma percentage_near:
  assumes "0 \<le> c" "c \<le> m" "0 < m" "m \<le> 2 ^ 44"
  shows "0 \<le> Math_round (js_mul (js_div (of_int c) (of_int m)) 100)"
    and "Math_round (js_mul (js_div (of_int c) (of_int m)) 100) \<le> 100"
    and "\<bar>of_int (Math_round (js_mul (js_div (of_int c) (of_int m)) 100))
           - 100 * of_int c / (of_int m :: rat)\<bar> \<le> 1 / 2"
proof -
  define x :: rat where "x = of_int c / of_int m"
  define q where "q = fl x"
  define P where "P = fl (q * 100)"
  define p where "p = \<lfloor>P + 1 / 2\<rfloor>"
  have pe: "Math_round (js_mul (js_div (of_int c) (of_int m)) 100) = p"
    by (simp add: Math_round_def js_mul_def js_div_def p_def P_def q_def x_def)
  have mp: "(0::rat) < of_int m" using assms(3) by simp
  have x0: "0 \<le> x" using assms(1) mp by (simp add: x_def)
  have "(of_int c :: rat) \<le> of_int m" using assms(2) by (simp only: of_int_le_iff)
  then have x1: "x \<le> 1" using mp by (simp add: x_def)
  have q0: "0 \<le> q" unfolding q_def using x0 by (rule fl_nonneg)
  have "fl x \<le> fl 1" using x1 by (rule fl_mono)
  then have q1: "q \<le> 1" by (simp add: q_def fl_one)
  have P0: "0 \<le> P" unfolding P_def using q0 by (intro fl_nonneg) simp
  have "fl (q * 100) \<le> fl (of_int 100)" using q1 by (intro fl_mono) simp
  then have P1: "P \<le> 100" using fl_of_int[of 100] by (simp add: P_def)
  have p0: "0 \<le> p" unfolding p_def using P0 by simp
  have "P + 1 / 2 < 101" using P1 by simp
  then have "p < 101" unfolding p_def by (simp add: floor_less_iff)
  then have p1: "p \<le> 100" by simp
  have eq: "\<bar>q - x\<bar> \<le> x / 2 ^ 53" unfolding q_def using x0 by (rule fl_err)
  have "\<bar>P - q * 100\<bar> \<le> q * 100 / 2 ^ 53" unfolding P_def using q0 by (intro fl_err) simp
  then have eP: "P - q * 100 \<le> q * 100 / 2 ^ 53" "q * 100 - P \<le> q * 100 / 2 ^ 53"
    by (simp_all only: abs_le_iff) linarith+
  have eq': "q - x \<le> x / 2 ^ 53" "x - q \<le> x / 2 ^ 53"
    using eq by (simp_all only: abs_le_iff) linarith+
  have xs: "x / 2 ^ 53 \<le> 1 / 2 ^ 53" using x1 by (intro divide_right_mono) simp_all
  have qs: "q * 100 / 2 ^ 53 \<le> 100 / 2 ^ 53" using q1 by (intro divide_right_mono) simp_all
  have d1: "P - 100 * x \<le> 200 / 2 ^ 53" using eP(1) eq'(1) xs qs by linarith
  have d2: "100 * x - P \<le> 200 / 2 ^ 53" using eP(2) eq'(2) xs qs by linarith
  have f: "of_int p \<le> P + 1 / 2" "P + 1 / 2 < of_int p + 1" unfolding p_def by linarith+
  have m44: "(of_int m :: rat) \<le> 2 ^ 44"
  proof -
    have "(of_int m :: rat) \<le> of_int (2 ^ 44)" using assms(4) by (simp only: of_int_le_iff)
    then show ?thesis by simp
  qed
  have X: "100 * x * (2 * of_int m) = of_int (200 * c)" using mp by (simp add: x_def)
  have lo: "of_int p - 1 / 2 - 200 / 2 ^ 53 \<le> 100 * x" using d1 f(1) by linarith
  have hi: "100 * x < of_int p + 1 / 2 + 200 / 2 ^ 53" using d2 f(2) by linarith
  have s: "200 / 2 ^ 53 * (2 * of_int m) < (1::rat)" using m44 mp by simp
  have "(of_int p - 1 / 2 - 200 / 2 ^ 53) * (2 * of_int m) \<le> 100 * x * (2 * of_int m)"
    using lo mp by (intro mult_right_mono) simp_all
  then have "of_int ((2 * p - 1) * m) - 1 < (of_int (200 * c) :: rat)"
    using s unfolding X by (simp add: algebra_simps)
  then have "(of_int ((2 * p - 1) * m - 1) :: rat) < of_int (200 * c)" by simp
  then have "(2 * p - 1) * m - 1 < 200 * c" by (simp only: of_int_less_iff)
  then have "(2 * p - 1) * m \<le> 200 * c" by simp
  then have "(of_int ((2 * p - 1) * m) :: rat) \<le> of_int (200 * c)" by (simp only: of_int_le_iff)
  then have "(of_int p - 1 / 2) * (2 * of_int m) \<le> 100 * x * (2 * of_int m)"
    unfolding X by (simp add: algebra_simps)
  then have L: "of_int p - 1 / 2 \<le> 100 * x" using mp by (simp only: mult_le_cancel_right)
  have "100 * x * (2 * of_int m) < (of_int p + 1 / 2 + 200 / 2 ^ 53) * (2 * of_int m)"
    using hi mp by (intro mult_strict_right_mono) simp_all
  then have "(of_int (200 * c) :: rat) < of_int ((2 * p + 1) * m) + 1"
    using s unfolding X by (simp add: algebra_simps)
  then have "(of_int (200 * c) :: rat) < of_int ((2 * p + 1) * m + 1)" by simp
  then have "200 * c < (2 * p + 1) * m + 1" by (simp only: of_int_less_iff)
  then have "200 * c \<le> (2 * p + 1) * m" by simp
  then have "(of_int (200 * c) :: rat) \<le> of_int ((2 * p + 1) * m)" by (simp only: of_int_le_iff)
  then have "100 * x * (2 * of_int m) \<le> (of_int p + 1 / 2) * (2 * of_int m)"
    unfolding X by (simp add: algebra_simps)
  then have U: "100 * x \<le> of_int p + 1 / 2" using mp by (simp only: mult_le_cancel_right)
  show "0 \<le> Math_round (js_mul (js_div (of_int c) (of_int m)) 100)" using p0 by (simp only: pe)
  show "Math_round (js_mul (js_div (of_int c) (of_int m)) 100) \<le> 100" using p1 by (simp only: pe)
  have "\<bar>of_int p - 100 * x\<bar> \<le> 1 / 2" using L U by linarith
  then show "\<bar>of_int (Math_round (js_mul (js_div (of_int c) (of_int m)) 100))
           - 100 * of_int c / (of_int m :: rat)\<bar> \<le> 1 / 2"
    by (simp add: pe x_def)
qed


lemma match_group_Some:
  "match_group g r s = Some m \<Longrightarrow> \<exists>i. exec_group g r (drop i s) = Some m"
proof (induction s)
  case Nil
  then show ?case by (intro exI[of _ 0]) simp
next
  case (Cons c s)
  show ?case
  proof (cases "exec_group g r (c # s)")
    case None
    then have "match_group g r s = Some m" using Cons.prems by simp
    then obtain i where "exec_group g r (drop i s) = Some m" using Cons.IH by blast
    then show ?thesis by (intro exI[of _ "Suc i"]) simp
  next
    case (Some m')
    then have "m' = m" using Cons.prems by simp
    then show ?thesis using Some by (intro exI[of _ 0]) simp
  qed
qed

lemma match_group_None_iff:
  "match_group g r s = None \<longleftrightarrow> (\<forall>i. exec_group g r (drop i s) = None)"
proof
  assume "\<forall>i. exec_group g r (drop i s) = None"
  then show "match_group g r s = None" by (intro match_group_None) simp
next
  assume n: "match_group g r s = None"
  have "i \<le> length s \<Longrightarrow> exec_group g r (drop i s) = None" for i
    using n
  proof (induction s arbitrary: i)
    case Nil
    then show ?case by simp
  next
    case (Cons c s)
    from Cons.prems(2) have 0: "exec_group g r (c # s) = None" and 1: "match_group g r s = None"
      by (auto split: option.splits)
    show ?case
    proof (cases i)
      case 0
      then show ?thesis using \<open>exec_group g r (c # s) = None\<close> by simp
    next
      case (Suc j)
      then have "j \<le> length s" using Cons.prems(1) by simp
      then have "exec_group g r (drop j s) = None" using 1 by (rule Cons.IH)
      then show ?thesis using Suc by simp
    qed
  qed
  moreover have "exec_group g r (drop i s) = exec_group g r (drop (length s) s)" if "length s < i" for i
    using that by simp
  ultimately show "\<forall>i. exec_group g r (drop i s) = None"
    by (metis le_refl not_le_imp_less)
qed

lemma parse_total: "\<exists>raw. parseConversationTokens s = Some raw \<and> 0 \<le> raw"
proof (cases "s = []")
  case True
  then show ?thesis by (simp add: parseConversationTokens_def)
next
  case False
  show ?thesis
  proof (cases "match_group rx_count rx_tokens s")
    case None
    then show ?thesis using False estimateTokens_nonneg[of s]
      by (simp add: parseConversationTokens_def)
  next
    case (Some m)
    then obtain i where "exec_group rx_count rx_tokens (drop i s) = Some m"
      using match_group_Some by blast
    then have "m \<in> lang rx_count" using exec_group_Some by blast
    then have g: "grouped_digits m" unfolding lang_rx_count by simp
    have "parseInt (filter (\<lambda>c. c \<noteq> 44) m) =
        Some (double_of_int (int (digits_value (filter (\<lambda>c. c \<noteq> 44) m))))"
      using without_commas[OF g] by (rule parseInt_digits)
    then show ?thesis using False Some double_of_int_nonneg
      by (simp add: parseConversationTokens_def)
  qed
qed

lemma calculateTokenUsage_near:
  assumes "0 < m" "m \<le> 2 ^ 44"
  shows "\<exists>raw p. parseConversationTokens s = Some raw \<and> 0 \<le> raw
     \<and> calculateTokenUsage (Some s) m =
         \<lparr>current = Some (min raw m), max' = m, percentage = Some p\<rparr>
     \<and> 0 \<le> p \<and> p \<le> 100
     \<and> \<bar>of_int p - 100 * of_int (min raw m) / (of_int m :: rat)\<bar> \<le> 1 / 2
     \<and> (frac (100 * of_int (min raw m) / (of_int m :: rat)) \<noteq> 1 / 2 \<longrightarrow>
          p = \<lfloor>100 * of_int (min raw m) / (of_int m :: rat) + 1 / 2\<rfloor>)"
proof -
  obtain raw where raw: "parseConversationTokens s = Some raw" "0 \<le> raw"
    using parse_total by blast
  define c where "c = min raw m"
  define p where "p = Math_round (js_mul (js_div (of_int c) (of_int m)) 100)"
  have c: "0 \<le> c" "c \<le> m" using raw(2) assms(1) by (simp_all add: c_def)
  note n = percentage_near[OF c assms, folded p_def]
  have u: "calculateTokenUsage (Some s) m = \<lparr>current = Some c, max' = m, percentage = Some p\<rparr>"
    using assms(1) by (simp add: calculateTokenUsage_def raw(1) Math_min_def c_def p_def)
  have t: "frac (100 * of_int c / (of_int m :: rat)) \<noteq> 1 / 2 \<longrightarrow>
      p = \<lfloor>100 * of_int c / (of_int m :: rat) + 1 / 2\<rfloor>"
    using nearest_not_tie[OF n(3)] by blast
  show ?thesis using raw u n t unfolding c_def by blast
qed


text \<open>
  Claim C1, as the code has it. For every summary and every maximum \<open>0 < m \<le> 2 ^ 44\<close>,
  with \<open>raw\<close> the count read from the summary: the usage holds \<open>min raw m\<close> and \<open>m\<close>, and
  its percentage is an integer between 0 and 100 that is nearest to
  \<open>100 * min raw m / m\<close>, so it is \<open>round (100 * min raw m / m)\<close> whenever that quotient
  is not exactly halfway between two integers. The percentage is computed in doubles as
  \<open>Math.round((min / m) * 100)\<close>; at an exact half it is one of the two neighbours.
\<close>

theorem calculateTokenUsage_percentage:
  assumes "0 < m" "m \<le> 2 ^ 44"
  shows "\<exists>raw p. parseConversationTokens s = Some raw \<and> 0 \<le> raw
     \<and> calculateTokenUsage (Some s) m =
         \<lparr>current = Some (min raw m), max' = m, percentage = Some p\<rparr>
     \<and> 0 \<le> p \<and> p \<le> 100
     \<and> \<bar>of_int p - 100 * of_int (min raw m) / (of_int m :: rat)\<bar> \<le> 1 / 2
     \<and> (frac (100 * of_int (min raw m) / (of_int m :: rat)) \<noteq> 1 / 2 \<longrightarrow>
          p = \<lfloor>100 * of_int (min raw m) / (of_int m :: rat) + 1 / 2\<rfloor>)"
  using assms by (rule calculateTokenUsage_near)

lemma parse_900: "parseConversationTokens (js ''900 tokens'') = Some 900"
  by (simp add: parseConversationTokens_def rx_eval)

lemma parse_150000: "parseConversationTokens (js ''150,000 tokens'') = Some 150000"
  by (simp add: parseConversationTokens_def rx_eval)

lemma parse_29000: "parseConversationTokens (js ''29,000 tokens'') = Some 29000"
  by (simp add: parseConversationTokens_def rx_eval)

lemma parse_1000: "parseConversationTokens (js ''1,000 tokens'') = Some 1000"
  by (simp add: parseConversationTokens_def rx_eval)

lemma int_near: "\<bar>of_int p - (of_int k :: rat)\<bar> \<le> 1 / 2 \<Longrightarrow> p = k"
proof -
  assume "\<bar>of_int p - (of_int k :: rat)\<bar> \<le> 1 / 2"
  then have "\<bar>(of_int (p - k) :: rat)\<bar> < 1" by simp
  then have "\<bar>p - k\<bar> < 1" by (metis of_int_abs of_int_less_1_iff)
  then show ?thesis by simp
qed

theorem calculateTokenUsage_percentage_witness:
  "calculateTokenUsage (Some (js ''150,000 tokens'')) 200000 =
     \<lparr>current = Some 150000, max' = 200000, percentage = Some 75\<rparr>
   \<and> calculateTokenUsage (Some (js ''900 tokens'')) 200 =
     \<lparr>current = Some 200, max' = 200, percentage = Some 100\<rparr>"
proof -
  have a: "(0::int) < 200000" "(200000::int) \<le> 2 ^ 44" "(0::int) < 200" "(200::int) \<le> 2 ^ 44"
    by simp_all
  obtain raw p where 1: "parseConversationTokens (js ''150,000 tokens'') = Some raw"
    "calculateTokenUsage (Some (js ''150,000 tokens'')) 200000 =
       \<lparr>current = Some (min raw 200000), max' = 200000, percentage = Some p\<rparr>"
    "\<bar>of_int p - 100 * of_int (min raw 200000) / (of_int 200000 :: rat)\<bar> \<le> 1 / 2"
    using calculateTokenUsage_percentage[OF a(1,2), of "js ''150,000 tokens''"] by blast
  have r1: "raw = 150000" using 1(1) by (simp add: parse_150000)
  have "\<bar>of_int p - (of_int 75 :: rat)\<bar> \<le> 1 / 2" using 1(3) by (simp add: r1)
  then have p1: "p = 75" by (rule int_near)
  obtain raw' p' where 2: "parseConversationTokens (js ''900 tokens'') = Some raw'"
    "calculateTokenUsage (Some (js ''900 tokens'')) 200 =
       \<lparr>current = Some (min raw' 200), max' = 200, percentage = Some p'\<rparr>"
    "\<bar>of_int p' - 100 * of_int (min raw' 200) / (of_int 200 :: rat)\<bar> \<le> 1 / 2"
    using calculateTokenUsage_percentage[OF a(3,4), of "js ''900 tokens''"] by blast
  have r2: "raw' = 900" using 2(1) by (simp add: parse_900)
  have "\<bar>of_int p' - (of_int 100 :: rat)\<bar> \<le> 1 / 2" using 2(3) by (simp add: r2)
  then have p2: "p' = 100" by (rule int_near)
  show ?thesis using 1(2) 2(2) by (simp add: r1 r2 p1 p2)
qed

text \<open>
  The claim as the specification states it, the percentage equal to
  \<open>round (100 * min raw m / m)\<close>, fails at exact halves. For 29000 tokens of 200000 the
  quotient is 14.5 and the percentage is 14, where \<open>Math.round\<close> of 14.5 is 15; for 1000
  tokens of 200000 the quotient is 0.5 and the percentage is 1, where rounding halves to
  even gives 0: no rule for halves gives both.
\<close>

theorem calculateTokenUsage_tie_counterexample:
  "percentage (calculateTokenUsage (Some (js ''29,000 tokens'')) 200000) = Some 14
   \<and> \<lfloor>(100 * 29000 / 200000 :: rat) + 1 / 2\<rfloor> = 15
   \<and> percentage (calculateTokenUsage (Some (js ''1,000 tokens'')) 200000) = Some 1
   \<and> round_even (100 * 1000 / 200000) = 0"
proof -
  have 1: "percentage (calculateTokenUsage (Some (js ''29,000 tokens'')) 200000) = Some 14"
    using round_29000_of_200000 by (simp add: calculateTokenUsage_def parse_29000 Math_min_def)
  have 2: "percentage (calculateTokenUsage (Some (js ''1,000 tokens'')) 200000) = Some 1"
    using round_1000_of_200000 by (simp add: calculateTokenUsage_def parse_1000 Math_min_def)
  have f: "\<lfloor>(1 / 2 :: rat)\<rfloor> = 0" by (simp add: floor_eq_iff)
  have 3: "round_even (100 * 1000 / 200000) = 0"
    unfolding round_even_def Let_def by (simp add: f)
  have 4: "\<lfloor>(100 * 29000 / 200000 :: rat) + 1 / 2\<rfloor> = 15" by (simp add: floor_eq_iff)
  show ?thesis using 1 2 3 4 by blast
qed

lemma double_of_int_int: "of_int (double_of_int n) = fl (of_int n)"
proof -
  have pos: "\<exists>k::int. fl_pos (of_int m) = of_int k" if m: "0 < m" for m :: int
  proof (cases "m < 2 ^ 53")
    case True
    then have "fl_pos (of_int m) = of_int m" using m fl_pos_dyadic[of m 0] by simp
    then show ?thesis by blast
  next
    case False
    let ?x = "of_int m :: rat"
    have xp: "0 < ?x" using m by simp
    have "(2 ^ 53 :: int) \<le> m" using False by simp
    then have "(of_int (2 ^ 53) :: rat) \<le> of_int m" by (simp only: of_int_le_iff)
    then have le: "(2::rat) powi 53 \<le> ?x" by simp
    have "expo ((2::rat) powi 53) = 53" by (rule expo_unique) simp_all
    then have "53 \<le> expo ?x" using expo_mono[OF _ le] by simp
    then have k: "0 \<le> expo ?x - 52" by simp
    define j where "j = nat (expo ?x - 52)"
    have pw: "(2::rat) powi (expo ?x - 52) = 2 ^ j" using k by (simp add: j_def power_int_def)
    have "fl_pos ?x = of_int (round_even (?x / 2 powi (expo ?x - 52))) * 2 ^ j"
      unfolding fl_pos_def Let_def by (simp only: pw)
    also have "\<dots> = of_int (round_even (?x / 2 powi (expo ?x - 52)) * 2 ^ j)" by simp
    finally show ?thesis by blast
  qed
  consider "n = 0" | "0 < n" | "n < 0" by linarith
  then have "\<exists>k::int. fl (of_int n) = of_int k"
  proof cases
    case 1
    have "fl (of_int n) = of_int 0" using 1 by (simp add: fl_def)
    then show ?thesis by blast
  next
    case 2
    then obtain k :: int where "fl_pos (of_int n) = of_int k" using pos[of n] by blast
    then have "fl (of_int n) = of_int k" using 2 by (simp add: fl_def)
    then show ?thesis by blast
  next
    case 3
    then obtain k :: int where "fl_pos (of_int (- n)) = of_int k" using pos[of "- n"] by auto
    then have "fl (of_int n) = of_int (- k)" using 3 by (simp add: fl_def)
    then show ?thesis by blast
  qed
  then obtain k :: int where "fl (of_int n) = of_int k" by blast
  then show ?thesis by (simp add: double_of_int_def)
qed

text \<open>Above \<open>2 ^ 53\<close> the odd integers are not doubles: \<open>2 ^ 53 + 1\<close> is read as \<open>2 ^ 53\<close>.\<close>

lemma double_of_int_2_53_1: "double_of_int 9007199254740993 = 9007199254740992"
proof -
  have e: "expo (9007199254740993 :: rat) = 53" by (rule expo_unique) simp_all
  have f: "\<lfloor>(9007199254740993 / 2 :: rat)\<rfloor> = 4503599627370496" by (simp add: floor_eq_iff)
  have r: "round_even (9007199254740993 / 2) = 4503599627370496"
    unfolding round_even_def Let_def f by simp
  have "fl (9007199254740993 :: rat) = 9007199254740992"
    using r by (simp add: fl_def fl_pos_def e Let_def)
  then show ?thesis by (simp add: double_of_int_def)
qed

subsection \<open>Counts in a summary\<close>

text \<open>
  Claim C10. An empty summary gives 0. When the summary is \<open>pre\<close>, then a decimal number
  with optional comma grouping, then white space (or none), then the word \<open>token\<close> or
  \<open>tokens\<close> in any case, then \<open>post\<close>, and no such count starts inside \<open>pre\<close>, the
  result is what \<open>parseInt\<close> reads from that number with its commas removed, whatever
  the length of the text: the number itself when it is at most \<open>2 ^ 53\<close>, and the double
  nearest to it above (for a number below \<open>10 ^ 308\<close>, the range of the doubles). When
  no such count starts anywhere in the summary, the result is \<open>estimateTokens\<close> of it.
\<close>

theorem parseConversationTokens_spec:
  "parseConversationTokens [] = Some 0
   \<and> (s = pre @ num @ sp @ word @ post \<and> grouped_digits num \<and> list_all is_ws sp
        \<and> is_token_word word \<and> (\<forall>i<length pre. \<not> token_count_at (drop i s))
        \<and> digits_value (filter (\<lambda>c. c \<noteq> 44) num) < 10 ^ 308 \<longrightarrow>
       parseConversationTokens s =
         Some (double_of_int (int (digits_value (filter (\<lambda>c. c \<noteq> 44) num))))
       \<and> (digits_value (filter (\<lambda>c. c \<noteq> 44) num) \<le> 2 ^ 53 \<longrightarrow>
            parseConversationTokens s = Some (int (digits_value (filter (\<lambda>c. c \<noteq> 44) num)))))
   \<and> (s \<noteq> [] \<and> (\<forall>i. \<not> token_count_at (drop i s)) \<longrightarrow>
       parseConversationTokens s = Some (estimateTokens s))"
proof (intro conjI impI)
  show "parseConversationTokens [] = Some 0" by (simp add: parseConversationTokens_def)
next
  assume a: "s = pre @ num @ sp @ word @ post \<and> grouped_digits num \<and> list_all is_ws sp
        \<and> is_token_word word \<and> (\<forall>i<length pre. \<not> token_count_at (drop i s))
        \<and> digits_value (filter (\<lambda>c. c \<noteq> 44) num) < 10 ^ 308"
  then show m: "parseConversationTokens s =
      Some (double_of_int (int (digits_value (filter (\<lambda>c. c \<noteq> 44) num))))"
    by (intro parseConversationTokens_match[of s pre num sp word post]) blast+
  assume "digits_value (filter (\<lambda>c. c \<noteq> 44) num) \<le> 2 ^ 53"
  then have "int (digits_value (filter (\<lambda>c. c \<noteq> 44) num)) \<le> int (2 ^ 53)"
    by (simp only: of_nat_le_iff)
  then have "\<bar>int (digits_value (filter (\<lambda>c. c \<noteq> 44) num))\<bar> \<le> 2 ^ 53" by simp
  then show "parseConversationTokens s = Some (int (digits_value (filter (\<lambda>c. c \<noteq> 44) num)))"
    unfolding m by (simp only: double_of_int_exact)
next
  assume "s \<noteq> [] \<and> (\<forall>i. \<not> token_count_at (drop i s))"
  then show "parseConversationTokens s = Some (estimateTokens s)"
    by (intro parseConversationTokens_fallback) blast+
qed

theorem parseConversationTokens_spec_witness:
  "parseConversationTokens (js ''used 1,234 Tokens today'') = Some 1234
   \<and> parseConversationTokens (js ''9007199254740993 tokens'') = Some 9007199254740992
   \<and> parseConversationTokens (js ''no count here'') = Some (estimateTokens (js ''no count here''))
   \<and> estimateTokens (js ''no count here'') = 4"
proof -
  let ?s = "js ''used 1,234 Tokens today''"
  have d: "?s = js ''used '' @ js ''1,234'' @ js '' '' @ js ''Tokens'' @ js '' today''"
    by (simp add: js_def)
  have "grouped_digits (js ''1'')" by (rule grouped_digits.digits) (simp_all add: js_def is_digit_def)
  then have "grouped_digits (js ''1'' @ 44 # js ''234'')"
    by (rule grouped_digits.group) (simp_all add: js_def is_digit_def)
  then have g: "grouped_digits (js ''1,234'')" by (simp add: js_def)
  have w: "list_all is_ws (js '' '')" by (simp add: js_def is_ws_def)
  have t: "is_token_word (js ''Tokens'')" by (simp add: is_token_word_def js_def ascii_lower_def)
  have e: "exec_group rx_count rx_tokens (drop i ?s) = None" if "i < 5" for i
  proof -
    from that consider "i = 0" | "i = 1" | "i = 2" | "i = 3" | "i = 4" by linarith
    then show ?thesis by cases (simp_all add: rx_eval)
  qed
  have l: "\<forall>i<length (js ''used ''). \<not> token_count_at (drop i ?s)"
    using e by (simp add: exec_group_token_None[symmetric] js_def)
  have v: "digits_value (filter (\<lambda>c. c \<noteq> 44) (js ''1,234'')) = 1234"
    by (simp add: digits_value_def js_def)
  have b: "digits_value (filter (\<lambda>c. c \<noteq> 44) (js ''1,234'')) < 10 ^ 308"
    "digits_value (filter (\<lambda>c. c \<noteq> 44) (js ''1,234'')) \<le> 2 ^ 53"
    unfolding v by simp_all
  note T = parseConversationTokens_spec[of ?s "js ''used ''" "js ''1,234''" "js '' ''"
      "js ''Tokens''" "js '' today''"]
  have H: "?s = js ''used '' @ js ''1,234'' @ js '' '' @ js ''Tokens'' @ js '' today''
      \<and> grouped_digits (js ''1,234'') \<and> list_all is_ws (js '' '')
      \<and> is_token_word (js ''Tokens'')
      \<and> (\<forall>i<length (js ''used ''). \<not> token_count_at (drop i ?s))
      \<and> digits_value (filter (\<lambda>c. c \<noteq> 44) (js ''1,234'')) < 10 ^ 308"
    using d g w t l b(1) by (intro conjI)
  have "parseConversationTokens ?s =
      Some (int (digits_value (filter (\<lambda>c. c \<noteq> 44) (js ''1,234''))))"
    by (rule mp[OF conjunct2[OF mp[OF conjunct1[OF conjunct2[OF T]] H]] b(2)])
  then have 1: "parseConversationTokens ?s = Some 1234" unfolding v by simp
  let ?u = "js ''9007199254740993 tokens''"
  have d': "?u = [] @ js ''9007199254740993'' @ js '' '' @ js ''tokens'' @ []"
    by (simp add: js_def)
  have g': "grouped_digits (js ''9007199254740993'')"
    by (rule grouped_digits.digits) (simp_all add: js_def is_digit_def)
  have t': "is_token_word (js ''tokens'')" by (simp add: is_token_word_def js_def ascii_lower_def)
  have l': "\<forall>i<length ([]::jsstring). \<not> token_count_at (drop i ?u)" by simp
  have v': "digits_value (filter (\<lambda>c. c \<noteq> 44) (js ''9007199254740993'')) = 9007199254740993"
    by (simp add: digits_value_def js_def)
  have b': "digits_value (filter (\<lambda>c. c \<noteq> 44) (js ''9007199254740993'')) < 10 ^ 308"
    unfolding v' by simp
  note T' = parseConversationTokens_spec[of ?u "[]" "js ''9007199254740993''" "js '' ''"
      "js ''tokens''" "[]"]
  have H': "?u = [] @ js ''9007199254740993'' @ js '' '' @ js ''tokens'' @ []
      \<and> grouped_digits (js ''9007199254740993'') \<and> list_all is_ws (js '' '')
      \<and> is_token_word (js ''tokens'')
      \<and> (\<forall>i<length ([]::jsstring). \<not> token_count_at (drop i ?u))
      \<and> digits_value (filter (\<lambda>c. c \<noteq> 44) (js ''9007199254740993'')) < 10 ^ 308"
    using d' g' w t' l' b' by (intro conjI)
  have "parseConversationTokens ?u =
      Some (double_of_int (int (digits_value (filter (\<lambda>c. c \<noteq> 44) (js ''9007199254740993'')))))"
    by (rule conjunct1[OF mp[OF conjunct1[OF conjunct2[OF T']] H']])
  then have 2: "parseConversationTokens ?u = Some 9007199254740992"
    unfolding v' by (simp add: double_of_int_2_53_1)
  have "match_group rx_count rx_tokens (js ''no count here'') = None" by (simp add: rx_eval)
  then have n: "\<forall>i. \<not> token_count_at (drop i (js ''no count here''))"
    by (simp add: match_group_None_iff exec_group_token_None)
  have ne: "js ''no count here'' \<noteq> []" by (simp add: js_def)
  have 3: "parseConversationTokens (js ''no count here'') = Some (estimateTokens (js ''no count here''))"
    by (rule mp[OF conjunct2[OF conjunct2[OF parseConversationTokens_spec[of "js ''no count here''"]]]
        conjI[OF ne n]])
  have "length (js ''no count here'') < 2 ^ 53" by (simp add: js_def)
  then have "estimateTokens (js ''no count here'') =
      \<lceil>(of_nat (length (trim (collapse_whitespace (js ''no count here'')))) :: rat) / 4\<rceil>"
    by (rule estimateTokens_eq)
  also have "trim (collapse_whitespace (js ''no count here'')) = js ''no count here''"
    by (simp add: js_def is_ws_def trim_def)
  also have "\<lceil>(of_nat (length (js ''no count here'')) :: rat) / 4\<rceil> = 4"
    by (simp add: js_def ceiling_eq_iff)
  finally have 4: "estimateTokens (js ''no count here'') = 4" .
  show ?thesis using 1 2 3 4 by blast
qed

end
